theory Spec2Isabelle
  imports Complex_Main
begin

unbundle bit_operations_syntax

section \<open>Conventions of the embedding\<close>

text \<open>
  The development embeds the spatial core of the repository: \<^verbatim>\<open>procedural_galaxy/myrand.py\<close>
  (the hash service) and \<^verbatim>\<open>galaxy/galaxyquad.py\<close> (boxes, the oriented viewport, quad nodes,
  the quad tree and its traversal).

  \<^item> Python integers are unbounded: they are \<open>int\<close>, and every \<^verbatim>\<open>& MASK64\<close> of the source is
    written out.
  \<^item> Python floats are modelled as \<open>real\<close>: arithmetic is exact, rounding, overflow to
    infinity and NaN are not modelled. Every statement below about coordinates, extents and
    depths from \<^verbatim>\<open>log2\<close> is a statement about this exact arithmetic.
  \<^item> \<^verbatim>\<open>int(x)\<close> on a float truncates towards zero (\<open>py_int\<close>).
  \<^item> A Python exception is a value of type \<open>error\<close>.
\<close>

datatype error = RecursionError | ValueError | TypeError

definition py_int :: "real \<Rightarrow> int" where
  "py_int x = (if 0 \<le> x then \<lfloor>x\<rfloor> else \<lceil>x\<rceil>)"


section \<open>Hash service (myrand.py)\<close>

definition MASK64 :: int where
  "MASK64 = push_bit 64 1 - 1"

definition TILE_DOMAIN :: int where
  "TILE_DOMAIN = 0x54494C45"

definition STAR_DOMAIN :: int where
  "STAR_DOMAIN = 0x53544152"

definition splitmix64 :: "int \<Rightarrow> int" where
  "splitmix64 x0 =
     (let x = (x0 + 0x9E3779B97F4A7C15) AND MASK64;
          z = x;
          z = ((z XOR drop_bit 30 z) * 0xBF58476D1CE4E5B9) AND MASK64;
          z = ((z XOR drop_bit 27 z) * 0x94D049BB133111EB) AND MASK64
      in (z XOR drop_bit 31 z) AND MASK64)"

definition hash64 :: "int list \<Rightarrow> int" where
  "hash64 vals = foldl (\<lambda>h v. splitmix64 (h XOR (v AND MASK64))) 0xA0761D6478BD642F vals"

definition u01 :: "int \<Rightarrow> int \<Rightarrow> real" where
  "u01 seed tag =
     (let x = splitmix64 (seed XOR ((tag * 0xD6E8FEB86659FD93) AND MASK64))
      in real_of_int (drop_bit 11 x AND (push_bit 53 1 - 1)) / real_of_int (push_bit 53 1))"

definition tile_key :: "int \<Rightarrow> int \<Rightarrow> int \<Rightarrow> int \<Rightarrow> int" where
  "tile_key world_seed depth x y = hash64 [TILE_DOMAIN, world_seed, depth, x, y]"

definition star_id :: "int \<Rightarrow> int \<Rightarrow> int" where
  "star_id tkey i = hash64 [STAR_DOMAIN, tkey, i]"


section \<open>Geometry primitives (galaxyquad.py)\<close>

definition GLOBAL_SEED :: int where
  "GLOBAL_SEED = 8675309"

record StarStub =
  starID :: int
  position :: "real \<times> real"
  brightness :: real

record Rect =
  cx :: real
  cy :: real
  hw :: real
  hh :: real

text \<open>
  \<^verbatim>\<open>OrientedRect\<close> has the four fields of \<^verbatim>\<open>Rect\<close> under the same names and the angle; the
  record extension only shares the field names, no operation of \<open>Rect\<close> is inherited.
\<close>

record OrientedRect = Rect +
  theta_rad :: real

definition xmin :: "Rect \<Rightarrow> real" where "xmin r = cx r - hw r"
definition xmax :: "Rect \<Rightarrow> real" where "xmax r = cx r + hw r"
definition ymin :: "Rect \<Rightarrow> real" where "ymin r = cy r - hh r"
definition ymax :: "Rect \<Rightarrow> real" where "ymax r = cy r + hh r"

definition Rect_w :: "Rect \<Rightarrow> real" where "Rect_w r = 2 * hw r"
definition Rect_h :: "Rect \<Rightarrow> real" where "Rect_h r = 2 * hh r"

definition corners :: "Rect \<Rightarrow> (real \<times> real) list" where
  "corners r = [(xmin r, ymin r), (xmin r, ymax r), (xmax r, ymax r), (xmax r, ymin r)]"

text \<open>The order of the result is NW, NE, SW, SE.\<close>

definition quadrants :: "Rect \<Rightarrow> Rect list" where
  "quadrants r =
     (let qhw = hw r / 2; qhh = hh r / 2
      in [\<lparr>cx = cx r - qhw, cy = cy r + qhh, hw = qhw, hh = qhh\<rparr>,
          \<lparr>cx = cx r + qhw, cy = cy r + qhh, hw = qhw, hh = qhh\<rparr>,
          \<lparr>cx = cx r - qhw, cy = cy r - qhh, hw = qhw, hh = qhh\<rparr>,
          \<lparr>cx = cx r + qhw, cy = cy r - qhh, hw = qhw, hh = qhh\<rparr>])"

definition axes :: "OrientedRect \<Rightarrow> (real \<times> real) \<times> (real \<times> real)" where
  "axes vp = (let c = cos (theta_rad vp); s = sin (theta_rad vp) in ((c, s), (- s, c)))"

definition contains_point :: "OrientedRect \<Rightarrow> real \<Rightarrow> real \<Rightarrow> bool" where
  "contains_point vp x y =
     (case axes vp of (u, v) \<Rightarrow>
        let dx = x - cx vp; dy = y - cy vp;
            lx = dx * fst u + dy * snd u;
            ly = dx * fst v + dy * snd v
        in \<bar>lx\<bar> \<le> hw vp \<and> \<bar>ly\<bar> \<le> hh vp)"

definition contains_aabb :: "OrientedRect \<Rightarrow> Rect \<Rightarrow> bool" where
  "contains_aabb vp aabb = list_all (\<lambda>(x, y). contains_point vp x y) (corners aabb)"

definition dot :: "real \<Rightarrow> real \<Rightarrow> real \<Rightarrow> real \<Rightarrow> real" where
  "dot ax ay bx by = ax * bx + ay * by"

definition proj_aabb :: "real \<times> real \<Rightarrow> Rect \<Rightarrow> real \<times> real" where
  "proj_aabb axis r =
     (case axis of (ax, ay) \<Rightarrow>
        let c = dot (cx r) (cy r) ax ay;
            rad = hw r * \<bar>ax\<bar> + hh r * \<bar>ay\<bar>
        in (c - rad, c + rad))"

definition proj_obb :: "real \<times> real \<Rightarrow> OrientedRect \<Rightarrow> real \<times> real" where
  "proj_obb axis r =
     (case axis of (ax, ay) \<Rightarrow>
      case axes r of ((ux, uy), (vx, vy)) \<Rightarrow>
        let c = dot (cx r) (cy r) ax ay;
            rad = hw r * \<bar>dot ux uy ax ay\<bar> + hh r * \<bar>dot vx vy ax ay\<bar>
        in (c - rad, c + rad))"

definition overlap :: "real \<times> real \<Rightarrow> real \<times> real \<Rightarrow> bool" where
  "overlap i1 i2 = (\<not> (snd i1 < fst i2 \<or> snd i2 < fst i1))"

text \<open>The loop over the four axes returns False at the first axis without overlap.\<close>

definition intersects_aabb :: "OrientedRect \<Rightarrow> Rect \<Rightarrow> bool" where
  "intersects_aabb vp aabb =
     (case axes vp of (u, v) \<Rightarrow>
        list_all (\<lambda>axis. overlap (proj_aabb axis aabb) (proj_obb axis vp))
          [(1, 0), (0, 1), u, v])"


section \<open>Quad nodes\<close>

text \<open>
  \<^verbatim>\<open>children\<close> is \<^verbatim>\<open>None\<close> or a tuple built from a generator, hence a sequence whose length
  is not fixed by its type: a list option. \<^verbatim>\<open>stars\<close> is the cache of generated content.
\<close>

datatype QuadNode =
  QuadNode (rect: Rect) (depth: int) (path: "int list")
           (children: "QuadNode list option") (stars: "StarStub list option")

text \<open>Assignments to the two mutable fields.\<close>

definition set_children :: "QuadNode list option \<Rightarrow> QuadNode \<Rightarrow> QuadNode" where
  "set_children cs n = QuadNode (rect n) (depth n) (path n) cs (stars n)"

definition set_stars :: "StarStub list option \<Rightarrow> QuadNode \<Rightarrow> QuadNode" where
  "set_stars st n = QuadNode (rect n) (depth n) (path n) (children n) st"

text \<open>The tuple that \<^verbatim>\<open>subdivide\<close> builds: one fresh leaf per quadrant, in enumeration order.\<close>

definition new_children :: "QuadNode \<Rightarrow> QuadNode list" where
  "new_children n =
     map (\<lambda>(i, child_rect). QuadNode child_rect (depth n + 1) (path n @ [int i]) None None)
         (enumerate 0 (quadrants (rect n)))"

definition subdivide :: "QuadNode \<Rightarrow> QuadNode" where
  "subdivide n =
     (case children n of
        Some cs \<Rightarrow> n
      | None \<Rightarrow> set_children (Some (new_children n)) n)"

definition is_leaf :: "QuadNode \<Rightarrow> bool" where
  "is_leaf n = (children n = None)"

definition node_position_step :: "int \<times> int \<Rightarrow> int \<Rightarrow> int \<times> int" where
  "node_position_step xy step =
     (case xy of (x, y) \<Rightarrow>
        let xb = step AND 1;
            yb = drop_bit 1 step AND 1
        in (push_bit 1 x OR xb, push_bit 1 y OR yb))"

definition node_position :: "QuadNode \<Rightarrow> int \<times> int" where
  "node_position n = foldl node_position_step (0, 0) (path n)"

definition node_key :: "QuadNode \<Rightarrow> int \<times> int \<times> int" where
  "node_key n = (depth n, node_position n)"

definition tileID :: "QuadNode \<Rightarrow> int" where
  "tileID n = (case node_key n of (d, x, y) \<Rightarrow> tile_key GLOBAL_SEED d x y)"

subsection \<open>Content generation\<close>

text \<open>The three local values of \<^verbatim>\<open>generate_stars\<close> that fix the number of stars.\<close>

definition n_expected :: "QuadNode \<Rightarrow> int" where
  "n_expected n = py_int (5 powi depth n / 4 powi depth n)"

definition variation :: "QuadNode \<Rightarrow> int" where
  "variation n = py_int ((u01 (tileID n) 0xFADECAFE - 0.5) * real_of_int (n_expected n) * 0.3)"

definition star_count :: "QuadNode \<Rightarrow> int" where
  "star_count n = max 1 (n_expected n + variation n)"

text \<open>The list comprehension: star \<open>i\<close> for \<open>i\<close> in \<^verbatim>\<open>range(n)\<close>.\<close>

definition make_star :: "QuadNode \<Rightarrow> int \<Rightarrow> StarStub" where
  "make_star n i =
     (let seed = tileID n
      in \<lparr>starID = star_id seed i,
          position = (cx (rect n) + (u01 seed (2 * i) - 0.5) * Rect_w (rect n),
                      cy (rect n) + (u01 seed (2 * i + 1) - 0.5) * Rect_h (rect n)),
          brightness = u01 seed i\<rparr>)"

definition stars_local :: "QuadNode \<Rightarrow> StarStub list" where
  "stars_local n = map (\<lambda>i. make_star n (int i)) [0..<nat (star_count n)]"

text \<open>\<^verbatim>\<open>generate_stars\<close> returns the node with its cache filled, and the list.\<close>

definition generate_stars :: "QuadNode \<Rightarrow> QuadNode \<times> StarStub list" where
  "generate_stars n =
     (case stars n of
        None \<Rightarrow> (set_stars (Some (stars_local n)) n, stars_local n)
      | Some s \<Rightarrow> (n, s))"


subsection \<open>Traversal\<close>

text \<open>
  \<^verbatim>\<open>traverse\<close> mutates the node it is called on and appends to \<^verbatim>\<open>visited\<close>. The model returns
  three things: the exception raised, if any; the node after the call; and the nodes the call
  appended to \<^verbatim>\<open>visited\<close>, in order. The list holds references in Python, so each visited
  node is given in the state it has when the call returns.

  Nothing in the source bounds the recursion when \<^verbatim>\<open>max_depth\<close> is \<^verbatim>\<open>None\<close> and the predicate
  never stops; Python then raises \<^verbatim>\<open>RecursionError\<close>. The first argument is the number of
  nested calls of \<^verbatim>\<open>traverse\<close> the interpreter still allows. An exception leaves the nodes
  mutated so far as they are, and skips the remaining children.
\<close>

type_synonym StopPredicate = "QuadNode \<Rightarrow> OrientedRect \<Rightarrow> bool"

type_synonym traverse_result = "error option \<times> QuadNode \<times> QuadNode list"

text \<open>The loop \<^verbatim>\<open>for child in self.children: child.traverse(...)\<close>.\<close>

primrec traverse_children ::
  "(QuadNode \<Rightarrow> traverse_result) \<Rightarrow> QuadNode list \<Rightarrow> error option \<times> QuadNode list \<times> QuadNode list"
where
  "traverse_children step [] = (None, [], [])"
| "traverse_children step (c # cs) =
     (case step c of (e, c', vs) \<Rightarrow>
        (case e of
           Some err \<Rightarrow> (Some err, c' # cs, vs)
         | None \<Rightarrow>
             (case traverse_children step cs of (e', cs', vs') \<Rightarrow> (e', c' # cs', vs @ vs'))))"

primrec traverse ::
  "nat \<Rightarrow> OrientedRect \<Rightarrow> StopPredicate \<Rightarrow> int option \<Rightarrow> QuadNode \<Rightarrow> traverse_result"
where
  "traverse 0 vp stop max_depth n = (Some RecursionError, n, [])"
| "traverse (Suc fuel) vp stop max_depth n =
     (if \<not> intersects_aabb vp (rect n) then (None, set_children None n, [])
      else
        let should_stop =
              (stop n vp \<or> (case max_depth of None \<Rightarrow> False | Some m \<Rightarrow> m \<le> depth n))
        in if should_stop then (let n' = set_children None n in (None, n', [n']))
           else
             let n1 = (if children n = None then subdivide n else n)
             in (case children n1 of
                   None \<Rightarrow> (Some TypeError, n1, [n1])
                 | Some cs \<Rightarrow>
                     (case traverse_children (traverse fuel vp stop max_depth) cs of
                        (e, cs', vs) \<Rightarrow>
                          (let n' = set_children (Some cs') n1 in (e, n', n' # vs)))))"


section \<open>Quad tree\<close>

text \<open>The field \<^verbatim>\<open>root\<close> is named \<open>root_node\<close>: \<open>root\<close> is the n-th root of HOL.\<close>

record QuadTree =
  root_node :: QuadNode
  cells_across :: int
  min_depth :: int
  max_depth :: int
  TileCache :: "int \<rightharpoonup> StarStub list"

text \<open>The constructor the dataclass generates, and the class method \<^verbatim>\<open>from_center\<close>.\<close>

definition QuadTree_init :: "QuadNode \<Rightarrow> int \<Rightarrow> int \<Rightarrow> int \<Rightarrow> QuadTree" where
  "QuadTree_init r cells lo hi =
     \<lparr>root_node = r, cells_across = cells, min_depth = lo, max_depth = hi, TileCache = Map.empty\<rparr>"

definition from_center :: "real \<Rightarrow> real \<Rightarrow> real \<Rightarrow> real \<Rightarrow> int \<Rightarrow> QuadTree" where
  "from_center x0 y0 w2 h2 cells =
     (let r = \<lparr>cx = x0, cy = y0, hw = w2, hh = h2\<rparr>;
          qnode = QuadNode r 0 [] None None
      in QuadTree_init qnode cells 0 20)"

text \<open>\<^verbatim>\<open>math.log2\<close> raises \<^verbatim>\<open>ValueError\<close> on an argument that is not positive.\<close>

definition pseudo_depth :: "QuadTree \<Rightarrow> OrientedRect \<Rightarrow> error + real" where
  "pseudo_depth t viewport =
     (let vmin = min (hw viewport) (hh viewport) * 2;
          root_size = max (Rect_w (rect (root_node t))) (Rect_h (rect (root_node t)));
          ratio = (root_size * real_of_int (cells_across t)) / max (1 / 10 ^ 9) vmin
      in if ratio \<le> 0 then Inl ValueError else Inr (log 2 ratio))"

definition desired_depth :: "QuadTree \<Rightarrow> OrientedRect \<Rightarrow> error + int" where
  "desired_depth t viewport =
     (case pseudo_depth t viewport of
        Inl e \<Rightarrow> Inl e
      | Inr pdepth \<Rightarrow>
          (let pdepth_int = \<lceil>pdepth\<rceil>;
               d_clamp = max (min_depth t) (min (max_depth t) pdepth_int)
           in Inr d_clamp))"

definition default_stop_predicate :: "QuadTree \<Rightarrow> OrientedRect \<Rightarrow> error + StopPredicate" where
  "default_stop_predicate t viewport =
     (case desired_depth t viewport of
        Inl e \<Rightarrow> Inl e
      | Inr target_depth \<Rightarrow>
          Inr (\<lambda>node vp'. target_depth \<le> depth node \<or> max_depth t \<le> depth node))"

text \<open>
  \<^verbatim>\<open>update\<close> returns the exception raised, if any, the tree after the call and the visited
  list.
\<close>

definition update ::
  "nat \<Rightarrow> QuadTree \<Rightarrow> OrientedRect \<Rightarrow> StopPredicate option
     \<Rightarrow> error option \<times> QuadTree \<times> QuadNode list"
where
  "update fuel t viewport stop_arg =
     (case (case stop_arg of None \<Rightarrow> default_stop_predicate t viewport | Some s \<Rightarrow> Inr s) of
        Inl e \<Rightarrow> (Some e, t, [])
      | Inr stop \<Rightarrow>
          (case traverse fuel viewport stop (Some (max_depth t)) (root_node t) of
             (e, r', visited) \<Rightarrow> (e, t\<lparr>root_node := r'\<rparr>, visited)))"


section \<open>Notions used by the properties\<close>

subsection \<open>Nodes of a tree and reachable trees\<close>

fun nodes :: "QuadNode \<Rightarrow> QuadNode list" where
  "nodes (QuadNode r d p cs st) =
     QuadNode r d p cs st # (case cs of None \<Rightarrow> [] | Some l \<Rightarrow> concat (map nodes l))"

text \<open>
  A method called on the node object found by following child indices from the root: the
  mutation shows in the tree that holds the node.
\<close>

fun apply_at :: "(QuadNode \<Rightarrow> QuadNode) \<Rightarrow> nat list \<Rightarrow> QuadNode \<Rightarrow> QuadNode" where
  "apply_at f [] n = f n"
| "apply_at f (i # pos) n =
     (case children n of
        None \<Rightarrow> n
      | Some cs \<Rightarrow>
          if i < length cs then set_children (Some (cs[i := apply_at f pos (cs ! i)])) n else n)"

text \<open>
  The trees reachable from a fresh root with box \<open>R\<close> by \<^verbatim>\<open>subdivide\<close>, \<^verbatim>\<open>traverse\<close> (with any
  viewport, predicate, depth bound and recursion budget) and \<^verbatim>\<open>generate_stars\<close>, each called
  on any node of the tree.
\<close>

inductive reachable :: "Rect \<Rightarrow> QuadNode \<Rightarrow> bool" for R :: Rect where
  fresh: "reachable R (QuadNode R 0 [] None None)"
| by_subdivide: "reachable R t \<Longrightarrow> reachable R (apply_at subdivide pos t)"
| by_traverse:
    "reachable R t \<Longrightarrow>
       reachable R (apply_at (\<lambda>n. fst (snd (traverse fuel vp stop md n))) pos t)"
| by_generate_stars:
    "reachable R t \<Longrightarrow> reachable R (apply_at (\<lambda>n. fst (generate_stars n)) pos t)"

text \<open>What the structure invariant says of one node with children.\<close>

definition node_ok :: "QuadNode \<Rightarrow> bool" where
  "node_ok n =
     (case children n of
        None \<Rightarrow> True
      | Some cs \<Rightarrow>
          length cs = 4 \<and>
          (\<forall>i < 4. rect (cs ! i) = quadrants (rect n) ! i \<and>
                   depth (cs ! i) = depth n + 1 \<and>
                   path (cs ! i) = path n @ [int i]))"

text \<open>The box of the node with path \<open>p\<close> under a root with box \<open>R\<close>.\<close>

definition rect_at :: "Rect \<Rightarrow> int list \<Rightarrow> Rect" where
  "rect_at R p = foldl (\<lambda>r i. quadrants r ! nat i) R p"

definition quadrant_path :: "int list \<Rightarrow> bool" where
  "quadrant_path p = list_all (\<lambda>i. 0 \<le> i \<and> i < 4) p"

subsection \<open>Boxes as point sets\<close>

definition box :: "Rect \<Rightarrow> (real \<times> real) set" where
  "box r = {(x, y). xmin r \<le> x \<and> x \<le> xmax r \<and> ymin r \<le> y \<and> y \<le> ymax r}"

definition interior_box :: "Rect \<Rightarrow> (real \<times> real) set" where
  "interior_box r = {(x, y). xmin r < x \<and> x < xmax r \<and> ymin r < y \<and> y < ymax r}"

definition area :: "Rect \<Rightarrow> real" where
  "area r = Rect_w r * Rect_h r"

subsection \<open>Plain tests between axis-aligned boxes\<close>

text \<open>Interval overlap on both axes, and all four corners of the inner box within the outer.\<close>

definition aabb_overlap :: "Rect \<Rightarrow> Rect \<Rightarrow> bool" where
  "aabb_overlap a b =
     (xmin a \<le> xmax b \<and> xmin b \<le> xmax a \<and> ymin a \<le> ymax b \<and> ymin b \<le> ymax a)"

definition aabb_contains :: "Rect \<Rightarrow> Rect \<Rightarrow> bool" where
  "aabb_contains outer inner =
     list_all (\<lambda>(x, y). xmin outer \<le> x \<and> x \<le> xmax outer \<and> ymin outer \<le> y \<and> y \<le> ymax outer)
       (corners inner)"

definition obb_box :: "OrientedRect \<Rightarrow> Rect" where
  "obb_box vp = \<lparr>cx = cx vp, cy = cy vp, hw = hw vp, hh = hh vp\<rparr>"

subsection \<open>Valid configurations and the documented count law\<close>

text \<open>The configuration constraints of the interface description.\<close>

definition config_ok :: "QuadTree \<Rightarrow> bool" where
  "config_ok t =
     (min_depth t \<le> max_depth t \<and> 0 < hw (rect (root_node t)) \<and> 0 < hh (rect (root_node t)) \<and>
      0 < cells_across t)"

text \<open>The expected count as the documentation words it, with rounding to nearest.\<close>

definition n_expected_round :: "int \<Rightarrow> int" where
  "n_expected_round d = round ((5::real) powi d / 4 powi d)"

text \<open>The quotient whose binary logarithm \<^verbatim>\<open>pseudo_depth\<close> takes.\<close>

definition ratio_of :: "QuadTree \<Rightarrow> OrientedRect \<Rightarrow> real" where
  "ratio_of t vp =
     (max (Rect_w (rect (root_node t))) (Rect_h (rect (root_node t))) * real_of_int (cells_across t))
       / max (1 / 10 ^ 9) (min (hw vp) (hh vp) * 2)"


subsection \<open>Invariants of reachable trees\<close>

text \<open>Two nodes with the same immutable fields: box, depth and path.\<close>

definition same_addr :: "QuadNode \<Rightarrow> QuadNode \<Rightarrow> bool" where
  "same_addr a b = (rect a = rect b \<and> depth a = depth b \<and> path a = path b)"

text \<open>
  The box and the depth of a node are those its path gives under the root box \<open>R\<close>, the
  path has quadrant indices only, and a cached content list is the one generation yields.
\<close>

definition addr_ok :: "Rect \<Rightarrow> QuadNode \<Rightarrow> bool" where
  "addr_ok R n =
     (rect n = rect_at R (path n) \<and> depth n = int (length (path n)) \<and> quadrant_path (path n) \<and>
      (stars n = None \<or> stars n = Some (stars_local n)))"

definition good :: "Rect \<Rightarrow> QuadNode \<Rightarrow> bool" where
  "good R t = (\<forall>n\<in>set (nodes t). node_ok n \<and> addr_ok R n)"

subsection \<open>Stop conditions of a traversal\<close>

text \<open>
  The traversal stops at a node when the predicate holds or the depth bound is reached.
  \<open>stops_from D\<close>: it stops at every node of depth at least \<open>D\<close>. \<open>stops_exactly D\<close>: it
  stops at exactly those nodes.
\<close>

definition stops_from :: "int \<Rightarrow> OrientedRect \<Rightarrow> StopPredicate \<Rightarrow> int option \<Rightarrow> bool" where
  "stops_from D vp stop md =
     (\<forall>n. D \<le> depth n \<longrightarrow> stop n vp \<or> (case md of None \<Rightarrow> False | Some m \<Rightarrow> m \<le> depth n))"

definition stops_exactly :: "int \<Rightarrow> OrientedRect \<Rightarrow> StopPredicate \<Rightarrow> int option \<Rightarrow> bool" where
  "stops_exactly D vp stop md =
     (\<forall>n. (stop n vp \<or> (case md of None \<Rightarrow> False | Some m \<Rightarrow> m \<le> depth n)) = (D \<le> depth n))"

subsection \<open>The end-to-end scenario\<close>

text \<open>Root box centred at the origin with half-extents 512; viewport rotated by 30 degrees.\<close>

definition scenario_root :: Rect where
  "scenario_root = \<lparr>cx = 0, cy = 0, hw = 512, hh = 512\<rparr>"

definition scenario_viewport :: OrientedRect where
  "scenario_viewport = \<lparr>cx = 10, cy = 96, hw = 90, hh = 160, theta_rad = pi / 6\<rparr>"


section \<open>Basic facts\<close>

lemma all_less4: "(\<forall>i<(4::nat). P i) = (P 0 \<and> P 1 \<and> P 2 \<and> P 3)"
proof -
  have "i < 4 \<longleftrightarrow> i = 0 \<or> i = 1 \<or> i = 2 \<or> i = 3" for i :: nat by auto
  then show ?thesis by auto
qed

lemma u01_range: "0 \<le> u01 seed tag \<and> u01 seed tag < 1"
proof -
  define m where
    "m = drop_bit 11 (splitmix64 (seed XOR ((tag * 0xD6E8FEB86659FD93) AND MASK64)))
           AND (push_bit 53 1 - 1 :: int)"
  have m0: "0 \<le> m" unfolding m_def by (simp add: and_nonnegative_int_iff)
  have "m \<le> push_bit 53 1 - 1" unfolding m_def by (rule AND_upper2) simp
  then have m1: "m < 2 ^ 53" by simp
  have u: "u01 seed tag = real_of_int m / 2 ^ 53"
    by (simp add: u01_def m_def Let_def)
  have "real_of_int m < 2 ^ 53" using m1 by (metis of_int_less_numeral_power_cancel_iff)
  with m0 show ?thesis unfolding u by simp
qed

lemma py_int_abs_le: "\<bar>real_of_int (py_int x)\<bar> \<le> \<bar>x\<bar>"
proof (cases "0 \<le> x")
  case True
  then have "0 \<le> \<lfloor>x\<rfloor>" by simp
  moreover have "real_of_int \<lfloor>x\<rfloor> \<le> x" by (rule of_int_floor_le)
  ultimately show ?thesis using True by (simp add: py_int_def)
next
  case False
  then have "\<lceil>x\<rceil> \<le> 0" by (simp add: ceiling_le_iff)
  moreover have "x \<le> real_of_int \<lceil>x\<rceil>" by (rule le_of_int_ceiling)
  ultimately show ?thesis using False by (simp add: py_int_def)
qed


section \<open>Quadrants\<close>

lemma quadrants_length: "length (quadrants B) = 4"
  by (simp add: quadrants_def Let_def)

lemma quadrants_nth:
  "quadrants B ! 0 = \<lparr>cx = cx B - hw B / 2, cy = cy B + hh B / 2, hw = hw B / 2, hh = hh B / 2\<rparr>"
  "quadrants B ! 1 = \<lparr>cx = cx B + hw B / 2, cy = cy B + hh B / 2, hw = hw B / 2, hh = hh B / 2\<rparr>"
  "quadrants B ! Suc 0 = \<lparr>cx = cx B + hw B / 2, cy = cy B + hh B / 2, hw = hw B / 2, hh = hh B / 2\<rparr>"
  "quadrants B ! 2 = \<lparr>cx = cx B - hw B / 2, cy = cy B - hh B / 2, hw = hw B / 2, hh = hh B / 2\<rparr>"
  "quadrants B ! 3 = \<lparr>cx = cx B + hw B / 2, cy = cy B - hh B / 2, hw = hw B / 2, hh = hh B / 2\<rparr>"
  by (simp_all add: quadrants_def Let_def numeral_3_eq_3)

lemma quadrants_union:
  assumes "0 \<le> hw B" and "0 \<le> hh B"
  shows "(\<Union>q\<in>set (quadrants B). box q) = box B"
proof (rule set_eqI)
  fix pt :: "real \<times> real"
  obtain x y where pt: "pt = (x, y)" by (cases pt)
  show "pt \<in> (\<Union>q\<in>set (quadrants B). box q) \<longleftrightarrow> pt \<in> box B"
    using assms unfolding pt
    by (simp add: quadrants_def Let_def box_def xmin_def xmax_def ymin_def ymax_def) argo
qed

lemma quadrants_disjoint:
  assumes "i < 4" and "j < 4" and "i \<noteq> j"
  shows "interior_box (quadrants B ! i) \<inter> interior_box (quadrants B ! j) = {}"
proof -
  have i: "i = 0 \<or> i = 1 \<or> i = 2 \<or> i = 3" using assms(1) by auto
  have j: "j = 0 \<or> j = 1 \<or> j = 2 \<or> j = 3" using assms(2) by auto
  show ?thesis
    using i j assms(3)
    by (auto simp: quadrants_nth interior_box_def xmin_def xmax_def ymin_def ymax_def)
qed

lemma quadrants_half: "q \<in> set (quadrants B) \<Longrightarrow> hw q = hw B / 2 \<and> hh q = hh B / 2"
  by (auto simp: quadrants_def Let_def)

lemma quadrants_area: "sum_list (map area (quadrants B)) = area B"
  by (simp add: quadrants_def Let_def area_def Rect_w_def Rect_h_def)

lemma quadrants_offsets:
  assumes "i < 4"
  shows "cx (quadrants B ! i) = cx B + (if int i AND 1 = 1 then hw B / 2 else - (hw B / 2)) \<and>
         cy (quadrants B ! i) =
           cy B + (if drop_bit 1 (int i) AND 1 = 1 then - (hh B / 2) else hh B / 2)"
proof -
  have i: "i = 0 \<or> i = 1 \<or> i = 2 \<or> i = 3" using assms by auto
  then show ?thesis
    by (auto simp: quadrants_nth drop_bit_eq_div)
qed

lemma and_one_cases: "(i::int) AND 1 = 0 \<or> i AND 1 = 1"
  by (simp add: and_one_eq) presburger

lemma shift_or_bit: "(x::int) * 2 OR (i AND 1) = 2 * x + (i AND 1)"
  using and_one_cases[of i] by (auto simp: or_one_eq)

lemma node_position_snoc:
  "node_position (QuadNode r d (p @ [i]) cs st) =
     (2 * fst (node_position (QuadNode r' d' p cs' st')) + (i AND 1),
      2 * snd (node_position (QuadNode r' d' p cs' st')) + (drop_bit 1 i AND 1))"
  by (simp add: node_position_def node_position_step_def Let_def split_beta shift_or_bit)

lemma new_children_length: "length (new_children n) = 4"
  by (simp add: new_children_def quadrants_length)

lemma new_children_nth:
  "i < 4 \<Longrightarrow>
     new_children n ! i = QuadNode (quadrants (rect n) ! i) (depth n + 1) (path n @ [int i]) None None"
  by (simp add: new_children_def quadrants_length nth_enumerate_eq)

lemma node_position_new_child:
  assumes "i < 4"
  shows "node_position (new_children n ! i) =
           (2 * fst (node_position n) + (int i AND 1),
            2 * snd (node_position n) + (drop_bit 1 (int i) AND 1))"
proof -
  obtain r d p cs st where n: "n = QuadNode r d p cs st" by (cases n)
  show ?thesis
    unfolding new_children_nth[OF assms] n QuadNode.sel
    by (rule node_position_snoc)
qed


section \<open>Quadrant partition\<close>

text \<open>
  C5. For every box \<open>B\<close> with positive half-extents the quadrant split returns four boxes
  that tile \<open>B\<close>: their union is \<open>B\<close>, their interiors are pairwise disjoint, each has half
  the half-extents of \<open>B\<close>, and their areas add up to the area of \<open>B\<close>. They come in the order
  NW, NE, SW, SE: bit 0 of the index gives the sign of the x-offset (set: east) and bit 1 the
  sign of the y-offset (set: south). The grid position of the child that \<^verbatim>\<open>subdivide\<close> creates
  at index \<open>i\<close> is decoded from the same two bits.
\<close>

theorem quadrants_tile_box:
  assumes "0 < hw B" and "0 < hh B"
  shows "length (quadrants B) = 4 \<and>
         (\<Union>q\<in>set (quadrants B). box q) = box B \<and>
         (\<forall>i<4. \<forall>j<4. i \<noteq> j \<longrightarrow>
            interior_box (quadrants B ! i) \<inter> interior_box (quadrants B ! j) = {}) \<and>
         (\<forall>q\<in>set (quadrants B). hw q = hw B / 2 \<and> hh q = hh B / 2) \<and>
         sum_list (map area (quadrants B)) = area B \<and>
         (\<forall>i<4. cx (quadrants B ! i) =
                   cx B + (if int i AND 1 = 1 then hw B / 2 else - (hw B / 2)) \<and>
                 cy (quadrants B ! i) =
                   cy B + (if drop_bit 1 (int i) AND 1 = 1 then - (hh B / 2) else hh B / 2)) \<and>
         (\<forall>i<4. rect (new_children n ! i) = quadrants (rect n) ! i \<and>
                 node_position (new_children n ! i) =
                   (2 * fst (node_position n) + (int i AND 1),
                    2 * snd (node_position n) + (drop_bit 1 (int i) AND 1)))"
proof (intro conjI allI impI ballI)
  show "length (quadrants B) = 4" by (rule quadrants_length)
  show "(\<Union>q\<in>set (quadrants B). box q) = box B"
    using assms by (intro quadrants_union) simp_all
  show "interior_box (quadrants B ! i) \<inter> interior_box (quadrants B ! j) = {}"
    if "i < 4" "j < 4" "i \<noteq> j" for i j
    using that by (rule quadrants_disjoint)
  show "hw q = hw B / 2" if "q \<in> set (quadrants B)" for q
    using quadrants_half[OF that] by simp
  show "hh q = hh B / 2" if "q \<in> set (quadrants B)" for q
    using quadrants_half[OF that] by simp
  show "sum_list (map area (quadrants B)) = area B" by (rule quadrants_area)
  show "cx (quadrants B ! i) = cx B + (if int i AND 1 = 1 then hw B / 2 else - (hw B / 2))"
    if "i < 4" for i
    using quadrants_offsets[OF that] by simp
  show "cy (quadrants B ! i) =
          cy B + (if drop_bit 1 (int i) AND 1 = 1 then - (hh B / 2) else hh B / 2)"
    if "i < 4" for i
    using quadrants_offsets[OF that] by simp
  show "rect (new_children n ! i) = quadrants (rect n) ! i" if "i < 4" for i
    by (simp add: new_children_nth[OF that])
  show "node_position (new_children n ! i) =
          (2 * fst (node_position n) + (int i AND 1),
           2 * snd (node_position n) + (drop_bit 1 (int i) AND 1))"
    if "i < 4" for i
    using that by (rule node_position_new_child)
qed

theorem quadrants_tile_box_witness:
  "(\<Union>q\<in>set (quadrants \<lparr>cx = 0, cy = 0, hw = 512, hh = 512\<rparr>). box q) =
     box \<lparr>cx = 0, cy = 0, hw = 512, hh = 512\<rparr> \<and>
   interior_box (quadrants \<lparr>cx = 0, cy = 0, hw = 512, hh = 512\<rparr> ! 0) \<inter>
     interior_box (quadrants \<lparr>cx = 0, cy = 0, hw = 512, hh = 512\<rparr> ! 3) = {} \<and>
   cx (quadrants \<lparr>cx = 0, cy = 0, hw = 512, hh = 512\<rparr> ! 3) = 256 \<and>
   cy (quadrants \<lparr>cx = 0, cy = 0, hw = 512, hh = 512\<rparr> ! 3) = - 256 \<and>
   node_position
     (new_children (QuadNode \<lparr>cx = 0, cy = 0, hw = 512, hh = 512\<rparr> 0 [] None None) ! 3) = (1, 1)"
proof -
  have pos: "0 < hw \<lparr>cx = 0, cy = 0, hw = 512, hh = 512 :: real\<rparr>"
            "0 < hh \<lparr>cx = 0, cy = 0, hw = 512 :: real, hh = 512\<rparr>"
    by simp_all
  have three: "(3::int) AND 1 = 1" "drop_bit 1 (3::int) AND 1 = 1"
    by (simp_all add: and_one_eq drop_bit_eq_div)
  have zero: "node_position (QuadNode \<lparr>cx = 0, cy = 0, hw = 512, hh = 512\<rparr> 0 [] None None) = (0, 0)"
    by (simp add: node_position_def)
  show ?thesis
    using quadrants_tile_box[OF pos,
        of "QuadNode \<lparr>cx = 0, cy = 0, hw = 512, hh = 512\<rparr> 0 [] None None"]
    by (simp add: all_less4 three zero)
qed


section \<open>The separating-axis test at angle zero\<close>

lemma axes_theta0: "theta_rad vp = 0 \<Longrightarrow> axes vp = ((1, 0), (0, 1))"
  by (simp add: axes_def)

text \<open>
  C6. For every axis-aligned box and every oriented box with rotation angle 0, the
  intersection test agrees with the plain interval-overlap test between the two boxes, and
  the containment test agrees with plain containment of the four corners.
\<close>

theorem sat_agrees_at_angle_zero:
  assumes "theta_rad vp = 0"
  shows "intersects_aabb vp a = aabb_overlap a (obb_box vp) \<and>
         contains_aabb vp a = aabb_contains (obb_box vp) a"
proof
  show "intersects_aabb vp a = aabb_overlap a (obb_box vp)"
    using assms
    by (auto simp: Let_def intersects_aabb_def axes_theta0 proj_aabb_def proj_obb_def
        overlap_def dot_def aabb_overlap_def obb_box_def xmin_def xmax_def ymin_def ymax_def)
  show "contains_aabb vp a = aabb_contains (obb_box vp) a"
    using assms
    by (auto simp: Let_def contains_aabb_def contains_point_def axes_theta0 aabb_contains_def
        corners_def obb_box_def xmin_def xmax_def ymin_def ymax_def abs_le_iff)
qed

theorem sat_agrees_at_angle_zero_witness:
  "theta_rad \<lparr>cx = 0, cy = 0, hw = 2, hh = 2, theta_rad = 0\<rparr> = 0 \<and>
   intersects_aabb \<lparr>cx = 0, cy = 0, hw = 2, hh = 2, theta_rad = 0\<rparr>
     \<lparr>cx = 5 / 2, cy = 0, hw = 1, hh = 1\<rparr> \<and>
   \<not> contains_aabb \<lparr>cx = 0, cy = 0, hw = 2, hh = 2, theta_rad = 0\<rparr>
     \<lparr>cx = 5 / 2, cy = 0, hw = 1, hh = 1\<rparr> \<and>
   contains_aabb \<lparr>cx = 0, cy = 0, hw = 2, hh = 2, theta_rad = 0\<rparr>
     \<lparr>cx = 1, cy = 0, hw = 1, hh = 1\<rparr>"
  using sat_agrees_at_angle_zero[of "\<lparr>cx = 0, cy = 0, hw = 2, hh = 2, theta_rad = 0\<rparr>"
          "\<lparr>cx = 5 / 2, cy = 0, hw = 1, hh = 1\<rparr>"]
        sat_agrees_at_angle_zero[of "\<lparr>cx = 0, cy = 0, hw = 2, hh = 2, theta_rad = 0\<rparr>"
          "\<lparr>cx = 1, cy = 0, hw = 1, hh = 1\<rparr>"]
  by (simp add: aabb_overlap_def aabb_contains_def obb_box_def corners_def
      xmin_def xmax_def ymin_def ymax_def)


section \<open>The number of stars of a node\<close>

lemma n_expected_floor: "n_expected n = \<lfloor>(5 / 4 :: real) powi depth n\<rfloor>"
proof -
  have "(5::real) powi depth n / 4 powi depth n = (5 / 4) powi depth n"
    by (simp add: power_int_divide_distrib)
  moreover have "0 \<le> (5 / 4 :: real) powi depth n" by simp
  ultimately show ?thesis by (simp add: n_expected_def py_int_def)
qed

lemma n_expected_nonneg: "0 \<le> n_expected n"
  unfolding n_expected_floor by simp

lemma variation_bound: "\<bar>real_of_int (variation n)\<bar> \<le> 0.15 * real_of_int (n_expected n)"
proof -
  define u where "u = u01 (tileID n) 0xFADECAFE"
  define k where "k = real_of_int (n_expected n)"
  have k: "0 \<le> k" unfolding k_def using n_expected_nonneg by simp
  have u: "\<bar>u - 0.5\<bar> \<le> 0.5"
    using u01_range[of "tileID n" "0xFADECAFE"] unfolding u_def by (auto simp: abs_if)
  have "\<bar>(u - 0.5) * k * 0.3\<bar> = \<bar>u - 0.5\<bar> * k * 0.3" using k by (simp add: abs_mult)
  also have "\<dots> \<le> 0.5 * k * 0.3"
    by (intro mult_right_mono u k) simp
  finally have "\<bar>(u - 0.5) * k * 0.3\<bar> \<le> 0.15 * k" by simp
  moreover have "\<bar>real_of_int (variation n)\<bar> \<le> \<bar>(u - 0.5) * k * 0.3\<bar>"
    unfolding variation_def u_def k_def by (rule py_int_abs_le)
  ultimately show ?thesis unfolding k_def by linarith
qed

lemma star_count_pos: "1 \<le> star_count n"
  by (simp add: star_count_def)

lemma stars_local_length: "length (stars_local n) = nat (star_count n)"
  by (simp add: stars_local_def)

lemma stars_local_nonempty: "stars_local n \<noteq> []"
  using star_count_pos[of n] by (simp add: stars_local_def)

lemma generate_stars_fresh: "stars n = None \<Longrightarrow> snd (generate_stars n) = stars_local n"
  by (simp add: generate_stars_def)

lemma variation_zero_small:
  assumes "n_expected n \<le> 6"
  shows "variation n = 0"
proof -
  have "\<bar>real_of_int (variation n)\<bar> \<le> 0.15 * real_of_int (n_expected n)"
    by (rule variation_bound)
  also have "\<dots> \<le> 0.15 * 6" using assms by simp
  finally have "\<bar>real_of_int (variation n)\<bar> < 1" by simp
  then show ?thesis by linarith
qed

lemma n_expected_depth2: "depth n = 2 \<Longrightarrow> n_expected n = 1"
  by (simp add: n_expected_floor power_divide)

lemma n_expected_depth5: "depth n = 5 \<Longrightarrow> n_expected n = 3"
  by (simp add: n_expected_floor power_divide)

lemma star_count_depth2: "depth n = 2 \<Longrightarrow> star_count n = 1"
  by (simp add: star_count_def n_expected_depth2 variation_zero_small)

lemma star_count_depth5: "depth n = 5 \<Longrightarrow> star_count n = 3"
  by (simp add: star_count_def n_expected_depth5 variation_zero_small)

text \<open>
  C3, as the code has it. For every node the expected count is \<open>5^depth / 4^depth\<close>
  truncated to an integer (not rounded to nearest); the perturbation is
  \<open>(uniform01(tile_id, 0xFADECAFE) - 0.5) * n_expected * 0.3\<close> truncated towards zero, hence
  at most 15 percent of the expected count in magnitude; the count is the sum clamped to at
  least 1; and the generated sequence has that many items, so it is never empty.
\<close>

theorem star_count_law:
  "n_expected n = \<lfloor>(5 / 4 :: real) powi depth n\<rfloor> \<and>
   variation n =
     py_int ((u01 (tileID n) 0xFADECAFE - 0.5) * real_of_int (n_expected n) * 0.3) \<and>
   \<bar>real_of_int (variation n)\<bar> \<le> 0.15 * real_of_int (n_expected n) \<and>
   star_count n = max 1 (n_expected n + variation n) \<and>
   1 \<le> star_count n \<and>
   length (stars_local n) = nat (star_count n) \<and>
   stars_local n \<noteq> [] \<and>
   (stars n = None \<longrightarrow> snd (generate_stars n) = stars_local n)"
  using n_expected_floor[of n] variation_bound[of n] star_count_pos[of n]
    stars_local_length[of n] stars_local_nonempty[of n] generate_stars_fresh[of n]
  by (simp add: variation_def star_count_def)

theorem star_count_law_witness:
  "stars (QuadNode \<lparr>cx = 0, cy = 0, hw = 512, hh = 512\<rparr> 0 [] None None) = None \<and>
   snd (generate_stars (QuadNode \<lparr>cx = 0, cy = 0, hw = 512, hh = 512\<rparr> 0 [] None None)) \<noteq> []"
  using star_count_law[of "QuadNode \<lparr>cx = 0, cy = 0, hw = 512, hh = 512\<rparr> 0 [] None None"]
  by simp

text \<open>
  C3 as stated fails at depth 2: \<open>25 / 16\<close> rounds to 2, the code truncates it to 1 and
  generates one star.
\<close>

theorem star_count_round_counterexample:
  "n_expected_round 2 = 2 \<and>
   n_expected (QuadNode \<lparr>cx = - 384, cy = 384, hw = 128, hh = 128\<rparr> 2 [0, 0] None None) = 1 \<and>
   length (snd (generate_stars
     (QuadNode \<lparr>cx = - 384, cy = 384, hw = 128, hh = 128\<rparr> 2 [0, 0] None None))) = 1"
  by (simp add: n_expected_round_def round_def n_expected_depth2 generate_stars_fresh
      stars_local_length star_count_depth2)


section \<open>Shared draws of brightness and position\<close>

lemma stars_local_nth:
  "i < length (stars_local n) \<Longrightarrow> stars_local n ! i = make_star n (int i)"
  by (simp add: stars_local_def)

text \<open>
  C10. In the freshly generated content of a node, the brightness of the star at index \<open>k\<close>
  is \<open>uniform01(tile_id, k)\<close> and the x-coordinate of the star at index \<open>j\<close> is computed from
  \<open>uniform01(tile_id, 2j)\<close>. So whenever \<open>2j\<close> is in range, the brightness of star \<open>2j\<close> is the
  very draw that places star \<open>j\<close> along x.
\<close>

theorem brightness_is_x_draw:
  assumes "stars n = None" and "2 * j < length (snd (generate_stars n))"
  shows "brightness (snd (generate_stars n) ! (2 * j)) = u01 (tileID n) (2 * int j) \<and>
         fst (position (snd (generate_stars n) ! j)) =
           cx (rect n) + (u01 (tileID n) (2 * int j) - 0.5) * Rect_w (rect n) \<and>
         fst (position (snd (generate_stars n) ! j)) =
           cx (rect n) + (brightness (snd (generate_stars n) ! (2 * j)) - 0.5) * Rect_w (rect n)"
proof -
  have g: "snd (generate_stars n) = stars_local n"
    using assms(1) by (rule generate_stars_fresh)
  have j2: "2 * j < length (stars_local n)" using assms(2) unfolding g .
  then have j1: "j < length (stars_local n)" by simp
  show ?thesis
    unfolding g stars_local_nth[OF j2] stars_local_nth[OF j1]
    by (simp add: make_star_def Let_def)
qed

theorem brightness_is_x_draw_witness:
  "2 * 1 < length (snd (generate_stars
      (QuadNode \<lparr>cx = - 496, cy = 496, hw = 16, hh = 16\<rparr> 5 [0, 0, 0, 0, 0] None None))) \<and>
   fst (position (snd (generate_stars
      (QuadNode \<lparr>cx = - 496, cy = 496, hw = 16, hh = 16\<rparr> 5 [0, 0, 0, 0, 0] None None)) ! 1)) =
     - 496 + (brightness (snd (generate_stars
      (QuadNode \<lparr>cx = - 496, cy = 496, hw = 16, hh = 16\<rparr> 5 [0, 0, 0, 0, 0] None None)) ! 2)
        - 0.5) * 32"
proof -
  let ?n = "QuadNode \<lparr>cx = - 496, cy = 496, hw = 16, hh = 16\<rparr> 5 [0, 0, 0, 0, 0] None None"
  have s: "stars ?n = None" by simp
  have len: "length (snd (generate_stars ?n)) = 3"
    by (simp add: generate_stars_fresh stars_local_length star_count_depth5)
  have l: "2 * 1 < length (snd (generate_stars ?n))" unfolding len by simp
  show ?thesis
    using brightness_is_x_draw[OF s l] l by (simp add: Rect_w_def)
qed


section \<open>Construction\<close>

text \<open>
  C4, as the code has it. Construction validates nothing: \<^verbatim>\<open>from_center\<close> and the
  constructor return a tree for every input and store the half-extents, \<^verbatim>\<open>cells_across\<close>
  and the depth bounds as given, neither rejected nor clamped; the tree has a valid
  configuration exactly when the inputs were valid.
\<close>

theorem construction_stores_configuration:
  "rect (root_node (from_center x0 y0 w2 h2 cells)) = \<lparr>cx = x0, cy = y0, hw = w2, hh = h2\<rparr> \<and>
   cells_across (from_center x0 y0 w2 h2 cells) = cells \<and>
   min_depth (from_center x0 y0 w2 h2 cells) = 0 \<and>
   max_depth (from_center x0 y0 w2 h2 cells) = 20 \<and>
   config_ok (from_center x0 y0 w2 h2 cells) = (0 < w2 \<and> 0 < h2 \<and> 0 < cells) \<and>
   root_node (QuadTree_init r cells lo hi) = r \<and>
   cells_across (QuadTree_init r cells lo hi) = cells \<and>
   min_depth (QuadTree_init r cells lo hi) = lo \<and>
   max_depth (QuadTree_init r cells lo hi) = hi \<and>
   config_ok (QuadTree_init r cells lo hi) =
     (lo \<le> hi \<and> 0 < hw (rect r) \<and> 0 < hh (rect r) \<and> 0 < cells)"
  by (simp add: from_center_def QuadTree_init_def config_ok_def Let_def)

text \<open>
  C4 as stated fails: non-positive half-extents and \<^verbatim>\<open>cells_across\<close>, and a depth ceiling
  below the floor, each give a tree.
\<close>

theorem construction_accepts_invalid_counterexample:
  "\<not> config_ok (from_center 0 0 (- 1) (- 1) 0) \<and>
   hw (rect (root_node (from_center 0 0 (- 1) (- 1) 0))) = - 1 \<and>
   cells_across (from_center 0 0 (- 1) (- 1) 0) = 0 \<and>
   \<not> config_ok (QuadTree_init (QuadNode \<lparr>cx = 0, cy = 0, hw = 512, hh = 512\<rparr> 0 [] None None) 4 5 3) \<and>
   max_depth (QuadTree_init (QuadNode \<lparr>cx = 0, cy = 0, hw = 512, hh = 512\<rparr> 0 [] None None) 4 5 3)
     < min_depth (QuadTree_init (QuadNode \<lparr>cx = 0, cy = 0, hw = 512, hh = 512\<rparr> 0 [] None None) 4 5 3)"
  by (simp add: from_center_def QuadTree_init_def config_ok_def Let_def)


section \<open>Target depth\<close>

lemma ratio_pos:
  assumes "config_ok t"
  shows "0 < ratio_of t vp"
proof -
  have "0 < max (Rect_w (rect (root_node t))) (Rect_h (rect (root_node t)))"
    using assms by (simp add: config_ok_def Rect_w_def Rect_h_def max_def)
  moreover have "0 < real_of_int (cells_across t)" using assms by (simp add: config_ok_def)
  moreover have "(0::real) < max (1 / 10 ^ 9) (min (hw vp) (hh vp) * 2)"
    by (simp add: less_max_iff_disj)
  ultimately show ?thesis unfolding ratio_of_def by (simp add: zero_less_mult_iff)
qed

lemma desired_depth_eq:
  assumes "config_ok t"
  shows "desired_depth t vp =
           Inr (max (min_depth t) (min (max_depth t) \<lceil>log 2 (ratio_of t vp)\<rceil>))"
  using ratio_pos[OF assms, of vp]
  by (simp add: desired_depth_def pseudo_depth_def Let_def ratio_of_def)

lemma ratio_antimono:
  assumes "config_ok t" and "min (hw vpA) (hh vpA) \<le> min (hw vpB) (hh vpB)"
  shows "ratio_of t vpB \<le> ratio_of t vpA"
proof -
  have k: "0 \<le> max (Rect_w (rect (root_node t))) (Rect_h (rect (root_node t)))
                 * real_of_int (cells_across t)"
    using assms(1) by (simp add: config_ok_def Rect_w_def Rect_h_def max_def)
  have a: "(0::real) < max (1 / 10 ^ 9) (min (hw vpA) (hh vpA) * 2)"
    by (simp add: less_max_iff_disj)
  have ab: "max (1 / 10 ^ 9) (min (hw vpA) (hh vpA) * 2)
              \<le> max (1 / 10 ^ 9) (min (hw vpB) (hh vpB) * 2)"
    using assms(2) by (intro max.mono) simp_all
  show ?thesis unfolding ratio_of_def
    by (rule frac_le) (rule k order_refl a ab)+
qed

text \<open>
  C7. For a tree with a valid configuration the target depth is computed without error and
  lies between \<^verbatim>\<open>min_depth\<close> and \<^verbatim>\<open>max_depth\<close> for every viewport; and if the smaller
  half-extent of viewport A is at most that of viewport B, the target depth for A is at
  least the one for B.
\<close>

theorem target_depth_monotone_clamped:
  assumes "config_ok t"
  shows "(\<exists>d. desired_depth t vp = Inr d \<and> min_depth t \<le> d \<and> d \<le> max_depth t) \<and>
         (min (hw vpA) (hh vpA) \<le> min (hw vpB) (hh vpB) \<longrightarrow>
            (\<exists>dA dB. desired_depth t vpA = Inr dA \<and> desired_depth t vpB = Inr dB \<and> dB \<le> dA))"
proof (intro conjI impI)
  have "min_depth t \<le> max_depth t" using assms by (simp add: config_ok_def)
  then show "\<exists>d. desired_depth t vp = Inr d \<and> min_depth t \<le> d \<and> d \<le> max_depth t"
    unfolding desired_depth_eq[OF assms] by simp
next
  assume le: "min (hw vpA) (hh vpA) \<le> min (hw vpB) (hh vpB)"
  have "log 2 (ratio_of t vpB) \<le> log 2 (ratio_of t vpA)"
    using ratio_antimono[OF assms le] ratio_pos[OF assms, of vpB] by simp
  then have "\<lceil>log 2 (ratio_of t vpB)\<rceil> \<le> \<lceil>log 2 (ratio_of t vpA)\<rceil>" by (rule ceiling_mono)
  then show "\<exists>dA dB. desired_depth t vpA = Inr dA \<and> desired_depth t vpB = Inr dB \<and> dB \<le> dA"
    unfolding desired_depth_eq[OF assms] by auto
qed

lemma config_ok_example: "config_ok (from_center 0 0 512 512 4)"
  by (simp add: config_ok_def from_center_def QuadTree_init_def Let_def)

theorem target_depth_monotone_clamped_witness:
  "config_ok (from_center 0 0 512 512 4) \<and>
   (\<exists>d. desired_depth (from_center 0 0 512 512 4)
           \<lparr>cx = 10, cy = 96, hw = 90, hh = 160, theta_rad = pi / 6\<rparr> = Inr d \<and> 0 \<le> d \<and> d \<le> 20) \<and>
   (\<exists>dA dB. desired_depth (from_center 0 0 512 512 4)
           \<lparr>cx = 10, cy = 96, hw = 45, hh = 80, theta_rad = 0\<rparr> = Inr dA \<and>
        desired_depth (from_center 0 0 512 512 4)
           \<lparr>cx = 10, cy = 96, hw = 90, hh = 160, theta_rad = pi / 6\<rparr> = Inr dB \<and> dB \<le> dA)"
  using target_depth_monotone_clamped[OF config_ok_example,
      of "\<lparr>cx = 10, cy = 96, hw = 90, hh = 160, theta_rad = pi / 6\<rparr>"
         "\<lparr>cx = 10, cy = 96, hw = 45, hh = 80, theta_rad = 0\<rparr>"
         "\<lparr>cx = 10, cy = 96, hw = 90, hh = 160, theta_rad = pi / 6\<rparr>"]
  by (simp add: config_ok_def from_center_def QuadTree_init_def Let_def)


section \<open>The invariant of reachable trees\<close>

lemma nodes_unfold:
  "nodes n = n # (case children n of None \<Rightarrow> [] | Some l \<Rightarrow> concat (map nodes l))"
  by (cases n) simp

lemma self_in_nodes: "n \<in> set (nodes n)"
  by (subst nodes_unfold) simp

lemma child_nodes_subset:
  "children n = Some cs \<Longrightarrow> c \<in> set cs \<Longrightarrow> set (nodes c) \<subseteq> set (nodes n)"
  by (subst (2) nodes_unfold) auto

lemma good_iff:
  "good R n \<longleftrightarrow>
     node_ok n \<and> addr_ok R n \<and> (\<forall>cs. children n = Some cs \<longrightarrow> (\<forall>c\<in>set cs. good R c))"
proof -
  have "set (nodes n) =
          insert n (\<Union>c\<in>(case children n of None \<Rightarrow> {} | Some cs \<Rightarrow> set cs). set (nodes c))"
    by (subst nodes_unfold) (auto split: option.splits)
  then show ?thesis
    unfolding good_def by (cases "children n") auto
qed

lemma set_children_sel [simp]:
  "rect (set_children cs n) = rect n"
  "depth (set_children cs n) = depth n"
  "path (set_children cs n) = path n"
  "stars (set_children cs n) = stars n"
  "children (set_children cs n) = cs"
  by (simp_all add: set_children_def)

lemma set_stars_sel [simp]:
  "rect (set_stars st n) = rect n"
  "depth (set_stars st n) = depth n"
  "path (set_stars st n) = path n"
  "stars (set_stars st n) = st"
  "children (set_stars st n) = children n"
  by (simp_all add: set_stars_def)

lemma same_addr_refl [simp]: "same_addr n n"
  by (simp add: same_addr_def)

lemma same_addr_set_children [simp]: "same_addr n (set_children cs n)"
  by (simp add: same_addr_def)

lemma same_addr_trans: "same_addr a b \<Longrightarrow> same_addr b c \<Longrightarrow> same_addr a c"
  by (simp add: same_addr_def)

lemma stars_local_cong: "same_addr a b \<Longrightarrow> stars_local a = stars_local b"
  by (simp add: same_addr_def stars_local_def star_count_def n_expected_def variation_def
      make_star_def tileID_def node_key_def node_position_def)

lemma addr_ok_cong: "same_addr a b \<Longrightarrow> stars a = stars b \<Longrightarrow> addr_ok R a = addr_ok R b"
  using stars_local_cong[of a b] by (simp add: addr_ok_def same_addr_def)

lemma good_prune: "good R n \<Longrightarrow> good R (set_children None n)"
  using addr_ok_cong[of n "set_children None n" R]
  by (subst good_iff, subst (asm) good_iff) (simp add: node_ok_def)

lemma good_replace_children:
  assumes "good R n" and "children n = Some cs"
    and "list_all2 (\<lambda>c c'. same_addr c c' \<and> (good R c \<longrightarrow> good R c')) cs cs'"
  shows "good R (set_children (Some cs') n)"
proof -
  from assms(1) have ok: "node_ok n" and ad: "addr_ok R n"
    and ch: "\<forall>c\<in>set cs. good R c"
    using assms(2) by (simp_all add: good_iff[of R n])
  have len: "length cs' = length cs" using assms(3) by (simp add: list_all2_lengthD)
  have nth: "same_addr (cs ! i) (cs' ! i) \<and> (good R (cs ! i) \<longrightarrow> good R (cs' ! i))"
    if "i < length cs" for i
    using list_all2_nthD[OF assms(3) that] .
  have "node_ok (set_children (Some cs') n)"
    using ok assms(2) len nth by (auto simp: node_ok_def same_addr_def)
  moreover have "addr_ok R (set_children (Some cs') n)"
    using ad addr_ok_cong[of n "set_children (Some cs') n" R] by simp
  moreover have "good R c'" if "c' \<in> set cs'" for c'
  proof -
    from that obtain i where i: "i < length cs'" "c' = cs' ! i" by (auto simp: in_set_conv_nth)
    then have "good R (cs ! i)" using ch len by simp
    then show ?thesis using nth[of i] i len by simp
  qed
  ultimately show ?thesis by (subst good_iff) simp
qed

lemma rect_at_snoc: "rect_at R (p @ [i]) = quadrants (rect_at R p) ! nat i"
  by (simp add: rect_at_def)

lemma good_new_child:
  assumes "addr_ok R n" and "i < 4"
  shows "good R (new_children n ! i)"
  using assms
  by (subst good_iff)
     (simp add: new_children_nth node_ok_def addr_ok_def rect_at_snoc quadrant_path_def)

lemma subdivide_sel [simp]:
  "rect (subdivide n) = rect n"
  "depth (subdivide n) = depth n"
  "path (subdivide n) = path n"
  "stars (subdivide n) = stars n"
  by (simp_all add: subdivide_def split: option.splits)

lemma subdivide_same_addr [simp]: "same_addr n (subdivide n)"
  by (simp add: same_addr_def)

lemma subdivide_good:
  assumes "good R n"
  shows "good R (subdivide n)"
proof (cases "children n")
  case (Some cs)
  then show ?thesis using assms by (simp add: subdivide_def)
next
  case None
  from assms have ad: "addr_ok R n" by (simp add: good_iff[of R n])
  have "node_ok (set_children (Some (new_children n)) n)"
    by (simp add: node_ok_def new_children_length new_children_nth)
  moreover have "addr_ok R (set_children (Some (new_children n)) n)"
    using ad addr_ok_cong[of n "set_children (Some (new_children n)) n" R] by simp
  moreover have "good R c" if "c \<in> set (new_children n)" for c
  proof -
    from that obtain i where "i < 4" "c = new_children n ! i"
      by (auto simp: in_set_conv_nth new_children_length)
    then show ?thesis using good_new_child[OF ad] by simp
  qed
  ultimately have "good R (set_children (Some (new_children n)) n)"
    by (subst good_iff) simp
  then show ?thesis using None by (simp add: subdivide_def)
qed

lemma traverse_children_rel:
  assumes "\<And>c. c \<in> set cs \<Longrightarrow> P c (fst (snd (step c)))" and "\<And>c. P c c"
  shows "list_all2 P cs (fst (snd (traverse_children step cs)))"
  using assms(1)
proof (induction cs)
  case Nil
  show ?case by simp
next
  case (Cons c cs)
  have "P c (fst (snd (step c)))" using Cons.prems by simp
  moreover have "list_all2 P cs (fst (snd (traverse_children step cs)))"
    using Cons by simp
  moreover have "list_all2 P cs cs" using assms(2) by (simp add: list_all2_same)
  ultimately show ?case
    by (auto split: prod.splits option.splits)
qed

lemma traverse_same_addr: "same_addr n (fst (snd (traverse fuel vp stop md n)))"
  by (cases fuel) (auto simp: Let_def same_addr_def split: option.splits prod.splits)

lemma traverse_stars: "stars (fst (snd (traverse fuel vp stop md n))) = stars n"
  by (cases fuel) (auto simp: Let_def split: option.splits prod.splits)

lemma traverse_good:
  "good R n \<Longrightarrow> good R (fst (snd (traverse fuel vp stop md n)))"
proof (induction fuel arbitrary: n)
  case 0
  then show ?case by simp
next
  case (Suc fuel)
  define n1 where "n1 = (if children n = None then subdivide n else n)"
  have g1: "good R n1" using Suc.prems by (simp add: n1_def subdivide_good)
  have rel: "list_all2 (\<lambda>c c'. same_addr c c' \<and> (good R c \<longrightarrow> good R c')) cs
               (fst (snd (traverse_children (traverse fuel vp stop md) cs)))" for cs
    by (rule traverse_children_rel) (simp_all add: traverse_same_addr Suc.IH)
  have "good R (set_children (Some (fst (snd (traverse_children (traverse fuel vp stop md) cs)))) n1)"
    if "children n1 = Some cs" for cs
    using g1 that rel by (rule good_replace_children)
  then show ?case
    using Suc.prems g1
    by (auto simp: Let_def good_prune n1_def[symmetric] split: option.splits prod.splits)
qed

lemma generate_stars_same_addr: "same_addr n (fst (generate_stars n))"
  by (simp add: generate_stars_def same_addr_def split: option.splits)

lemma generate_stars_good:
  assumes "good R n"
  shows "good R (fst (generate_stars n))"
proof (cases "stars n")
  case (Some s)
  then show ?thesis using assms by (simp add: generate_stars_def)
next
  case None
  have sa: "same_addr n (set_stars (Some (stars_local n)) n)" by (simp add: same_addr_def)
  have "addr_ok R (set_stars (Some (stars_local n)) n)"
    using assms stars_local_cong[OF sa] by (simp add: good_iff[of R n] addr_ok_def)
  moreover have "node_ok (set_stars (Some (stars_local n)) n)"
    using assms by (simp add: good_iff[of R n] node_ok_def split: option.splits)
  ultimately have "good R (set_stars (Some (stars_local n)) n)"
    using assms by (subst good_iff, subst (asm) good_iff) simp
  then show ?thesis using None by (simp add: generate_stars_def)
qed

lemma apply_at_good:
  assumes "\<And>m. same_addr m (f m)" and "\<And>m. good R m \<Longrightarrow> good R (f m)"
  shows "same_addr n (apply_at f pos n) \<and> (good R n \<longrightarrow> good R (apply_at f pos n))"
proof (induction pos arbitrary: n)
  case Nil
  show ?case using assms by simp
next
  case (Cons i pos)
  show ?case
  proof (cases "children n")
    case None
    then show ?thesis by simp
  next
    case (Some cs)
    show ?thesis
    proof (cases "i < length cs")
      case False
      then show ?thesis using Some by simp
    next
      case True
      have rel: "list_all2 (\<lambda>c c'. same_addr c c' \<and> (good R c \<longrightarrow> good R c')) cs
                   (cs[i := apply_at f pos (cs ! i)])"
        using Cons.IH[of "cs ! i"] True
        by (simp add: list_all2_conv_all_nth nth_list_update)
      have "good R (set_children (Some (cs[i := apply_at f pos (cs ! i)])) n)" if "good R n"
        using that Some rel by (rule good_replace_children)
      then show ?thesis using Some True by simp
    qed
  qed
qed

lemma good_fresh: "good R (QuadNode R 0 [] None None)"
  by (subst good_iff) (simp add: node_ok_def addr_ok_def rect_at_def quadrant_path_def)

lemma reachable_good: "reachable R t \<Longrightarrow> good R t"
proof (induction rule: reachable.induct)
  case fresh
  show ?case by (rule good_fresh)
next
  case (by_subdivide t pos)
  then show ?case using apply_at_good[of subdivide R t pos] by (simp add: subdivide_good)
next
  case (by_traverse t fuel vp stop md pos)
  then show ?case
    using apply_at_good[of "\<lambda>n. fst (snd (traverse fuel vp stop md n))" R t pos]
    by (simp add: traverse_same_addr traverse_good)
next
  case (by_generate_stars t pos)
  then show ?case
    using apply_at_good[of "\<lambda>n. fst (generate_stars n)" R t pos]
    by (simp add: generate_stars_same_addr generate_stars_good)
qed

section \<open>The visited list of a traversal\<close>

lemma stops_exactly_from: "stops_exactly D vp stop md \<Longrightarrow> stops_from D vp stop md"
  by (simp add: stops_exactly_def stops_from_def)

lemma traverse_children_visited_sub:
  "v \<in> set (snd (snd (traverse_children step cs))) \<Longrightarrow> \<exists>c\<in>set cs. v \<in> set (snd (snd (step c)))"
  by (induction cs) (auto split: prod.splits option.splits)

lemma traverse_children_no_error:
  "\<forall>c\<in>set cs. fst (step c) = None \<Longrightarrow> fst (traverse_children step cs) = None"
  by (induction cs) (auto split: prod.splits option.splits)

lemma traverse_children_visited_sup:
  "fst (traverse_children step cs) = None \<Longrightarrow> c \<in> set cs \<Longrightarrow>
     set (snd (snd (step c))) \<subseteq> set (snd (snd (traverse_children step cs)))"
  by (induction cs) (auto split: prod.splits option.splits)

text \<open>The children the loop of traverse runs over.\<close>

lemma traverse_Suc_descend:
  assumes "intersects_aabb vp (rect n)"
    and "\<not> (stop n vp \<or> (case md of None \<Rightarrow> False | Some m \<Rightarrow> m \<le> depth n))"
  shows "\<exists>cs. children (if children n = None then subdivide n else n) = Some cs \<and>
          traverse (Suc fuel) vp stop md n =
          (fst (traverse_children (traverse fuel vp stop md) cs),
           set_children (Some (fst (snd (traverse_children (traverse fuel vp stop md) cs))))
             (if children n = None then subdivide n else n),
           set_children (Some (fst (snd (traverse_children (traverse fuel vp stop md) cs))))
             (if children n = None then subdivide n else n)
             # snd (snd (traverse_children (traverse fuel vp stop md) cs)))"
proof -
  define n1 where "n1 = (if children n = None then subdivide n else n)"
  have "children n1 \<noteq> None" by (auto simp: n1_def subdivide_def)
  then obtain cs where cs: "children n1 = Some cs" by auto
  show ?thesis
    using assms cs by (auto simp: Let_def n1_def[symmetric] split: prod.splits)
qed

lemma traverse_visited_intersect:
  "v \<in> set (snd (snd (traverse fuel vp stop md n))) \<Longrightarrow> intersects_aabb vp (rect v)"
proof (induction fuel arbitrary: n v)
  case 0
  then show ?case by simp
next
  case (Suc fuel)
  show ?case
  proof (cases "intersects_aabb vp (rect n) \<and> \<not> (stop n vp \<or> (case md of None \<Rightarrow> False | Some m \<Rightarrow> m \<le> depth n))")
    case False
    then show ?thesis using Suc.prems by (auto simp: Let_def split: if_splits)
  next
    case True
    then obtain cs where
      tr: "snd (snd (traverse (Suc fuel) vp stop md n)) =
            set_children (Some (fst (snd (traverse_children (traverse fuel vp stop md) cs))))
             (if children n = None then subdivide n else n)
             # snd (snd (traverse_children (traverse fuel vp stop md) cs))"
      using traverse_Suc_descend[of vp n stop md fuel] by fastforce
    from Suc.prems[unfolded tr] show ?thesis
    proof (simp, elim disjE)
      assume "v = set_children (Some (fst (snd (traverse_children (traverse fuel vp stop md) cs))))
             (if children n = None then subdivide n else n)"
      then show ?thesis using True by simp
    next
      assume "v \<in> set (snd (snd (traverse_children (traverse fuel vp stop md) cs)))"
      then obtain c where "v \<in> set (snd (snd (traverse fuel vp stop md c)))"
        using traverse_children_visited_sub by blast
      then show ?thesis by (rule Suc.IH)
    qed
  qed
qed

subsection \<open>A box that meets the viewport lies in boxes that meet it\<close>

lemma quadrants_half_nth: "i < 4 \<Longrightarrow> hw (quadrants B ! i) = hw B / 2 \<and> hh (quadrants B ! i) = hh B / 2"
proof -
  assume "i < 4"
  then have "i = 0 \<or> i = 1 \<or> i = 2 \<or> i = 3" by auto
  then show ?thesis by (auto simp: quadrants_nth)
qed

lemma proj_aabb_quadrant:
  assumes "0 \<le> hw r" and "0 \<le> hh r" and "i < 4"
  shows "fst (proj_aabb axis r) \<le> fst (proj_aabb axis (quadrants r ! i)) \<and>
         snd (proj_aabb axis (quadrants r ! i)) \<le> snd (proj_aabb axis r)"
proof -
  obtain ax ay where axis: "axis = (ax, ay)" by (cases axis)
  have i: "i = 0 \<or> i = 1 \<or> i = 2 \<or> i = 3" using assms(3) by auto
  have a1: "hw r * ax \<le> hw r * \<bar>ax\<bar>" using assms(1) by (intro mult_left_mono) simp_all
  have "hw r * (- ax) \<le> hw r * \<bar>ax\<bar>" using assms(1) by (intro mult_left_mono) simp_all
  then have a2: "- (hw r * \<bar>ax\<bar>) \<le> hw r * ax" by simp
  have b1: "hh r * ay \<le> hh r * \<bar>ay\<bar>" using assms(2) by (intro mult_left_mono) simp_all
  have "hh r * (- ay) \<le> hh r * \<bar>ay\<bar>" using assms(2) by (intro mult_left_mono) simp_all
  then have b2: "- (hh r * \<bar>ay\<bar>) \<le> hh r * ay" by simp
  show ?thesis
    using i a1 a2 b1 b2 unfolding axis
    by (auto simp: proj_aabb_def dot_def Let_def quadrants_nth algebra_simps)
qed

lemma overlap_widen:
  "overlap i1 P \<Longrightarrow> fst j \<le> fst i1 \<Longrightarrow> snd i1 \<le> snd j \<Longrightarrow> overlap j P"
  by (auto simp: overlap_def)

lemma intersects_aabb_quadrant:
  assumes "0 \<le> hw r" and "0 \<le> hh r" and "i < 4" and "intersects_aabb vp (quadrants r ! i)"
  shows "intersects_aabb vp r"
proof -
  have mono: "overlap (proj_aabb axis r) P"
    if "overlap (proj_aabb axis (quadrants r ! i)) P" for axis P
    using that proj_aabb_quadrant[OF assms(1,2,3), of axis] by (auto intro: overlap_widen)
  show ?thesis
    using assms(4) by (auto simp: intersects_aabb_def split: prod.splits intro: mono)
qed

lemma rect_at_Cons: "rect_at R (i # q) = rect_at (quadrants R ! nat i) q"
  by (simp add: rect_at_def)

lemma rect_at_Nil [simp]: "rect_at R [] = R"
  by (simp add: rect_at_def)

lemma quadrant_path_Cons: "quadrant_path (i # q) \<longleftrightarrow> 0 \<le> i \<and> i < 4 \<and> quadrant_path q"
  by (auto simp: quadrant_path_def)

lemma intersects_aabb_rect_at:
  assumes "quadrant_path q" and "0 \<le> hw r" and "0 \<le> hh r"
    and "intersects_aabb vp (rect_at r q)"
  shows "intersects_aabb vp r"
  using assms
proof (induction q arbitrary: r)
  case Nil
  then show ?case by simp
next
  case (Cons i q)
  from Cons.prems(1) have i: "nat i < 4" and q: "quadrant_path q"
    by (auto simp: quadrant_path_Cons)
  have h: "0 \<le> hw (quadrants r ! nat i)" "0 \<le> hh (quadrants r ! nat i)"
    using quadrants_half_nth[OF i, of r] Cons.prems(2,3) by simp_all
  have "intersects_aabb vp (quadrants r ! nat i)"
    using Cons.IH[OF q h] Cons.prems(4) by (simp add: rect_at_Cons)
  with Cons.prems(2,3) i show ?case by (rule intersects_aabb_quadrant)
qed

subsection \<open>Depth bound, absence of errors, completeness\<close>

lemma descend_children_good:
  assumes "good R n" and "children (if children n = None then subdivide n else n) = Some cs"
  shows "length cs = 4 \<and>
         (\<forall>i<4. good R (cs ! i) \<and> rect (cs ! i) = quadrants (rect n) ! i \<and>
                 depth (cs ! i) = depth n + 1 \<and> path (cs ! i) = path n @ [int i])"
proof -
  define n1 where "n1 = (if children n = None then subdivide n else n)"
  have g1: "good R n1" using assms(1) by (simp add: n1_def subdivide_good)
  have s: "rect n1 = rect n" "depth n1 = depth n" "path n1 = path n" by (simp_all add: n1_def)
  have cs: "children n1 = Some cs" using assms(2) by (simp add: n1_def)
  from g1 cs have ok: "node_ok n1" and ch: "\<forall>c\<in>set cs. good R c"
    by (simp_all add: good_iff[of R n1])
  from ok cs s have len: "length cs = 4"
    and loc: "\<forall>i<4. rect (cs ! i) = quadrants (rect n) ! i \<and>
                 depth (cs ! i) = depth n + 1 \<and> path (cs ! i) = path n @ [int i]"
    by (simp_all add: node_ok_def)
  from ch len have "\<forall>i<4. good R (cs ! i)" by simp
  with len loc show ?thesis by simp
qed

lemma traverse_visited_depth:
  assumes "stops_from D vp stop md"
  shows "good R n \<Longrightarrow> v \<in> set (snd (snd (traverse fuel vp stop md n))) \<Longrightarrow>
           depth v \<le> max (depth n) D"
proof (induction fuel arbitrary: n v)
  case 0
  then show ?case by simp
next
  case (Suc fuel)
  show ?case
  proof (cases "intersects_aabb vp (rect n) \<and>
      \<not> (stop n vp \<or> (case md of None \<Rightarrow> False | Some m \<Rightarrow> m \<le> depth n))")
    case False
    then show ?thesis using Suc.prems by (auto simp: Let_def split: if_splits)
  next
    case True
    then have dn: "depth n < D" using assms by (auto simp: stops_from_def not_le[symmetric])
    from True obtain cs where
      cs: "children (if children n = None then subdivide n else n) = Some cs" and
      tr: "snd (snd (traverse (Suc fuel) vp stop md n)) =
            set_children (Some (fst (snd (traverse_children (traverse fuel vp stop md) cs))))
             (if children n = None then subdivide n else n)
             # snd (snd (traverse_children (traverse fuel vp stop md) cs))"
      using traverse_Suc_descend[of vp n stop md fuel] by fastforce
    note ch = descend_children_good[OF Suc.prems(1) cs]
    from Suc.prems(2)[unfolded tr] show ?thesis
    proof (simp, elim disjE)
      assume "v = set_children (Some (fst (snd (traverse_children (traverse fuel vp stop md) cs))))
             (if children n = None then subdivide n else n)"
      then show ?thesis by simp
    next
      assume "v \<in> set (snd (snd (traverse_children (traverse fuel vp stop md) cs)))"
      then obtain c where c: "c \<in> set cs" "v \<in> set (snd (snd (traverse fuel vp stop md c)))"
        using traverse_children_visited_sub by blast
      then obtain i where i: "i < 4" "c = cs ! i" using ch by (auto simp: in_set_conv_nth)
      have "depth v \<le> max (depth c) D" using ch i c(2) by (intro Suc.IH) simp_all
      then show ?thesis using ch i dn by simp
    qed
  qed
qed

lemma traverse_no_error:
  assumes "stops_from D vp stop md"
  shows "good R n \<Longrightarrow> nat (D - depth n) < fuel \<Longrightarrow> fst (traverse fuel vp stop md n) = None"
proof (induction fuel arbitrary: n)
  case 0
  then show ?case by simp
next
  case (Suc fuel)
  show ?case
  proof (cases "intersects_aabb vp (rect n) \<and>
      \<not> (stop n vp \<or> (case md of None \<Rightarrow> False | Some m \<Rightarrow> m \<le> depth n))")
    case False
    then show ?thesis by (auto simp: Let_def)
  next
    case True
    then have dn: "depth n < D" using assms by (auto simp: stops_from_def not_le[symmetric])
    from True obtain cs where
      cs: "children (if children n = None then subdivide n else n) = Some cs" and
      tr: "fst (traverse (Suc fuel) vp stop md n) =
             fst (traverse_children (traverse fuel vp stop md) cs)"
      using traverse_Suc_descend[of vp n stop md fuel] by fastforce
    note ch = descend_children_good[OF Suc.prems(1) cs]
    have "fst (traverse fuel vp stop md c) = None" if "c \<in> set cs" for c
    proof -
      from that obtain i where i: "i < 4" "c = cs ! i" using ch by (auto simp: in_set_conv_nth)
      have "nat (D - depth c) < fuel" using ch i dn Suc.prems(2) by simp
      with ch i show ?thesis by (intro Suc.IH) simp_all
    qed
    then show ?thesis unfolding tr by (intro traverse_children_no_error) simp
  qed
qed

lemma traverse_visits_intersecting:
  assumes "stops_exactly D vp stop md"
  shows "good R n \<Longrightarrow> nat (D - depth n) < fuel \<Longrightarrow> quadrant_path q \<Longrightarrow>
         depth n + int (length q) \<le> D \<Longrightarrow> intersects_aabb vp (rect_at (rect n) q) \<Longrightarrow>
         0 \<le> hw (rect n) \<Longrightarrow> 0 \<le> hh (rect n) \<Longrightarrow>
         \<exists>v\<in>set (snd (snd (traverse fuel vp stop md n))).
            path v = path n @ q \<and> rect v = rect_at (rect n) q \<and>
            depth v = depth n + int (length q)"
proof (induction fuel arbitrary: n q)
  case 0
  then show ?case by simp
next
  case (Suc fuel)
  have sf: "stops_from D vp stop md" using assms by (rule stops_exactly_from)
  have inter: "intersects_aabb vp (rect n)"
    using Suc.prems(3,6,7,5) by (rule intersects_aabb_rect_at)
  show ?case
  proof (cases "stop n vp \<or> (case md of None \<Rightarrow> False | Some m \<Rightarrow> m \<le> depth n)")
    case True
    then have "D \<le> depth n" using assms unfolding stops_exactly_def by metis
    then have "int (length q) \<le> 0" using Suc.prems(4) by linarith
    then have "q = []" by simp
    then show ?thesis using True inter by (simp add: Let_def)
  next
    case False
    then have dn: "depth n < D" using assms unfolding stops_exactly_def by (metis not_le)
    from inter False obtain cs where
      cs: "children (if children n = None then subdivide n else n) = Some cs" and
      tr: "traverse (Suc fuel) vp stop md n =
          (fst (traverse_children (traverse fuel vp stop md) cs),
           set_children (Some (fst (snd (traverse_children (traverse fuel vp stop md) cs))))
             (if children n = None then subdivide n else n),
           set_children (Some (fst (snd (traverse_children (traverse fuel vp stop md) cs))))
             (if children n = None then subdivide n else n)
             # snd (snd (traverse_children (traverse fuel vp stop md) cs)))"
      using traverse_Suc_descend[of vp n stop md fuel] by blast
    note ch = descend_children_good[OF Suc.prems(1) cs]
    show ?thesis
    proof (cases q)
      case Nil
      then show ?thesis unfolding tr by simp
    next
      case (Cons i q')
      from Suc.prems(3) Cons have i: "0 \<le> i" "nat i < 4" and q': "quadrant_path q'"
        by (auto simp: quadrant_path_Cons)
      define c where "c = cs ! nat i"
      have c: "good R c" "rect c = quadrants (rect n) ! nat i" "depth c = depth n + 1"
        "path c = path n @ [i]" "c \<in> set cs"
        using ch i by (simp_all add: c_def)
      have fuel: "nat (D - depth c) < fuel" using c(3) dn Suc.prems(2) by simp
      have ext: "0 \<le> hw (rect c)" "0 \<le> hh (rect c)"
        using quadrants_half_nth[OF i(2), of "rect n"] Suc.prems(6,7) c(2) by simp_all
      have "\<exists>v\<in>set (snd (snd (traverse fuel vp stop md c))).
              path v = path c @ q' \<and> rect v = rect_at (rect c) q' \<and>
              depth v = depth c + int (length q')"
        using c(1) fuel q' _ _ ext
      proof (rule Suc.IH)
        show "depth c + int (length q') \<le> D" using Suc.prems(4) Cons c(3) by simp
        show "intersects_aabb vp (rect_at (rect c) q')"
          using Suc.prems(5) Cons c(2) by (simp add: rect_at_Cons)
      qed
      then obtain v where v: "v \<in> set (snd (snd (traverse fuel vp stop md c)))"
        "path v = path c @ q'" "rect v = rect_at (rect c) q'"
        "depth v = depth c + int (length q')" by blast
      have "fst (traverse (Suc fuel) vp stop md n) = None"
        using sf Suc.prems(1,2) by (rule traverse_no_error)
      then have "fst (traverse_children (traverse fuel vp stop md) cs) = None"
        unfolding tr by simp
      then have "v \<in> set (snd (snd (traverse_children (traverse fuel vp stop md) cs)))"
        using traverse_children_visited_sup[OF _ c(5)] v(1) by blast
      then show ?thesis
        unfolding tr using v c Cons by (auto simp: rect_at_Cons)
    qed
  qed
qed

section \<open>The end-to-end scenario\<close>

lemma reachable_root_addr: "reachable R t \<Longrightarrow> same_addr (QuadNode R 0 [] None None) t"
proof (induction rule: reachable.induct)
  case fresh
  show ?case by simp
next
  case (by_subdivide t pos)
  then show ?case using apply_at_good[of subdivide R t pos]
    by (auto simp: subdivide_good intro: same_addr_trans)
next
  case (by_traverse t fuel vp stop md pos)
  then show ?case
    using apply_at_good[of "\<lambda>n. fst (snd (traverse fuel vp stop md n))" R t pos]
    by (auto simp: traverse_same_addr traverse_good intro: same_addr_trans)
next
  case (by_generate_stars t pos)
  then show ?case
    using apply_at_good[of "\<lambda>n. fst (generate_stars n)" R t pos]
    by (auto simp: generate_stars_same_addr generate_stars_good intro: same_addr_trans)
qed

lemma update_default:
  assumes "desired_depth t vp = Inr d"
  shows "update fuel t vp None =
           (case traverse fuel vp (\<lambda>node vp'. d \<le> depth node \<or> max_depth t \<le> depth node)
                   (Some (max_depth t)) (root_node t) of
              (e, r', visited) \<Rightarrow> (e, t\<lparr>root_node := r'\<rparr>, visited))"
  using assms by (simp add: update_def default_stop_predicate_def)

lemma default_stops_exactly:
  "stops_exactly (min d m) vp (\<lambda>node vp'. d \<le> depth node \<or> m \<le> depth node) (Some m)"
  by (auto simp: stops_exactly_def)

lemma scenario_ceiling: "\<lceil>log 2 (4096 / 180 :: real)\<rceil> = 5"
proof (rule ceiling_unique)
  have "(2::real) powr 4 < 4096 / 180" by simp
  then show "real_of_int 5 - 1 < log 2 (4096 / 180)"
    by (simp add: less_log_iff)
  have "(4096 / 180 :: real) \<le> 2 powr 5" by simp
  then show "log 2 (4096 / 180) \<le> real_of_int 5"
    by (simp add: log_le_iff)
qed

lemma scenario_desired_depth:
  assumes "rect (root_node t) = scenario_root" and "cells_across t = 4"
    and "min_depth t = 0" and "max_depth t = 20"
  shows "desired_depth t scenario_viewport = Inr 5"
proof -
  have r: "ratio_of t scenario_viewport = 4096 / 180"
    using assms by (simp add: ratio_of_def scenario_root_def scenario_viewport_def Rect_w_def Rect_h_def)
  have c: "config_ok t" using assms by (simp add: config_ok_def scenario_root_def)
  show ?thesis
    unfolding desired_depth_eq[OF c] r scenario_ceiling using assms by simp
qed

lemma scenario_root_visible: "intersects_aabb scenario_viewport scenario_root"
proof -
  have s: "0 \<le> sqrt 3" by simp
  show ?thesis
    by (simp add: intersects_aabb_def axes_def Let_def proj_aabb_def proj_obb_def overlap_def
        dot_def scenario_viewport_def scenario_root_def cos_30 sin_30)
      (insert s, linarith)
qed

lemma good_nodes: "good R t \<Longrightarrow> n \<in> set (nodes t) \<Longrightarrow> node_ok n \<and> addr_ok R n"
  by (simp add: good_def)

text \<open>
  C2. Take a tree whose root box is centred at (0,0) with half-extents (512,512), in any
  state reachable from the fresh root, with \<^verbatim>\<open>cells_across\<close> 4, \<^verbatim>\<open>min_depth\<close> 0 and
  \<^verbatim>\<open>max_depth\<close> 20, and the viewport centred at (10,96) with half-extents (90,160) rotated
  by 30 degrees. The target depth is 5. A query with a recursion budget of at least 6 nested
  calls raises nothing; every visited node has a box that intersects the viewport and a depth
  of at most 5; and every cell of depth at most 5 whose box intersects the viewport is
  visited.
\<close>

theorem end_to_end_scenario:
  assumes "reachable scenario_root (root_node t)"
    and "cells_across t = 4" and "min_depth t = 0" and "max_depth t = 20"
    and "6 \<le> fuel"
  shows "desired_depth t scenario_viewport = Inr 5 \<and>
         fst (update fuel t scenario_viewport None) = None \<and>
         (\<forall>v\<in>set (snd (snd (update fuel t scenario_viewport None))).
            intersects_aabb scenario_viewport (rect v) \<and> depth v \<le> 5) \<and>
         (\<forall>p. quadrant_path p \<and> length p \<le> 5 \<and>
              intersects_aabb scenario_viewport (rect_at scenario_root p) \<longrightarrow>
              (\<exists>v\<in>set (snd (snd (update fuel t scenario_viewport None))).
                 path v = p \<and> rect v = rect_at scenario_root p \<and> depth v = int (length p)))"
proof -
  let ?stop = "\<lambda>node (vp'::OrientedRect). (5::int) \<le> depth node \<or> max_depth t \<le> depth node"
  let ?tr = "traverse fuel scenario_viewport ?stop (Some (max_depth t)) (root_node t)"
  have g: "good scenario_root (root_node t)" using assms(1) by (rule reachable_good)
  have ad: "rect (root_node t) = scenario_root" "depth (root_node t) = 0" "path (root_node t) = []"
    using reachable_root_addr[OF assms(1)] by (simp_all add: same_addr_def)
  have dd: "desired_depth t scenario_viewport = Inr 5"
    using ad(1) assms(2,3,4) by (rule scenario_desired_depth)
  have upd: "fst (update fuel t scenario_viewport None) = fst ?tr"
    "snd (snd (update fuel t scenario_viewport None)) = snd (snd ?tr)"
    unfolding update_default[OF dd] by (simp_all add: split_beta)
  have se: "stops_exactly 5 scenario_viewport ?stop (Some (max_depth t))"
    using default_stops_exactly[of 5 "max_depth t" scenario_viewport] assms(4) by simp
  have fuel: "nat (5 - depth (root_node t)) < fuel" using ad(2) assms(5) by simp
  have "fst ?tr = None"
    using stops_exactly_from[OF se] g fuel by (rule traverse_no_error)
  moreover have "intersects_aabb scenario_viewport (rect v) \<and> depth v \<le> 5"
    if "v \<in> set (snd (snd ?tr))" for v
    using traverse_visited_intersect[OF that]
      traverse_visited_depth[OF stops_exactly_from[OF se] g that] ad(2) by simp
  moreover have "\<exists>v\<in>set (snd (snd ?tr)).
      path v = p \<and> rect v = rect_at scenario_root p \<and> depth v = int (length p)"
    if "quadrant_path p" "length p \<le> 5"
      "intersects_aabb scenario_viewport (rect_at scenario_root p)" for p
  proof -
    have "\<exists>v\<in>set (snd (snd ?tr)). path v = path (root_node t) @ p \<and>
            rect v = rect_at (rect (root_node t)) p \<and>
            depth v = depth (root_node t) + int (length p)"
      using se g fuel that(1)
    proof (rule traverse_visits_intersecting)
      show "depth (root_node t) + int (length p) \<le> 5" using ad(2) that(2) by simp
      show "intersects_aabb scenario_viewport (rect_at (rect (root_node t)) p)"
        using that(3) ad(1) by simp
      show "0 \<le> hw (rect (root_node t))" "0 \<le> hh (rect (root_node t))"
        unfolding ad(1) by (simp_all add: scenario_root_def)
    qed
    then show ?thesis using ad by simp
  qed
  ultimately show ?thesis unfolding upd using dd by blast
qed

theorem end_to_end_scenario_witness:
  "desired_depth (from_center 0 0 512 512 4) scenario_viewport = Inr 5 \<and>
   fst (update 1000 (from_center 0 0 512 512 4) scenario_viewport None) = None \<and>
   (\<exists>v\<in>set (snd (snd (update 1000 (from_center 0 0 512 512 4) scenario_viewport None))).
      path v = [] \<and> rect v = scenario_root \<and> depth v = 0)"
proof -
  have r: "reachable scenario_root (root_node (from_center 0 0 512 512 4))"
    using reachable.fresh[of scenario_root]
    by (simp add: from_center_def QuadTree_init_def Let_def scenario_root_def)
  have c: "cells_across (from_center 0 0 512 512 4) = 4"
    "min_depth (from_center 0 0 512 512 4) = 0" "max_depth (from_center 0 0 512 512 4) = 20"
    by (simp_all add: from_center_def QuadTree_init_def Let_def)
  have f: "6 \<le> (1000::nat)" by simp
  have q: "quadrant_path [] \<and> length ([]::int list) \<le> 5 \<and>
           intersects_aabb scenario_viewport (rect_at scenario_root [])"
    using scenario_root_visible by (simp add: quadrant_path_def)
  show ?thesis
    using end_to_end_scenario[OF r c f] q by fastforce
qed

section \<open>Pruning on a disjoint viewport\<close>

text \<open>
  C8. If the viewport does not intersect the box of the root, a query (with the default
  predicate on a tree with a valid configuration, or with any predicate passed by the
  caller) raises nothing, returns an empty visited list and leaves the root a leaf, whatever
  children it had.
\<close>

theorem disjoint_viewport_prunes_root:
  assumes "\<not> intersects_aabb vp (rect (root_node t))" and "0 < fuel"
    and "stop_arg = None \<longrightarrow> config_ok t"
  shows "update fuel t vp stop_arg = (None, t\<lparr>root_node := set_children None (root_node t)\<rparr>, []) \<and>
         snd (snd (update fuel t vp stop_arg)) = [] \<and>
         is_leaf (root_node (fst (snd (update fuel t vp stop_arg))))"
proof -
  obtain k where k: "fuel = Suc k" using assms(2) by (cases fuel) simp_all
  have tr: "traverse fuel vp stop md (root_node t) = (None, set_children None (root_node t), [])"
    for stop md
    using assms(1) unfolding k by simp
  have "update fuel t vp stop_arg = (None, t\<lparr>root_node := set_children None (root_node t)\<rparr>, [])"
  proof (cases stop_arg)
    case None
    then have "config_ok t" using assms(3) by simp
    then show ?thesis
      using None by (simp add: update_def default_stop_predicate_def desired_depth_eq tr)
  next
    case (Some s)
    then show ?thesis by (simp add: update_def tr)
  qed
  then show ?thesis by (simp add: is_leaf_def)
qed

theorem disjoint_viewport_prunes_root_witness:
  "children (root_node (QuadTree_init (subdivide (QuadNode scenario_root 0 [] None None)) 4 0 20))
     \<noteq> None \<and>
   \<not> intersects_aabb \<lparr>cx = 2000, cy = 96, hw = 90, hh = 160, theta_rad = 0\<rparr>
       (rect (root_node (QuadTree_init (subdivide (QuadNode scenario_root 0 [] None None)) 4 0 20))) \<and>
   snd (snd (update 1000 (QuadTree_init (subdivide (QuadNode scenario_root 0 [] None None)) 4 0 20)
       \<lparr>cx = 2000, cy = 96, hw = 90, hh = 160, theta_rad = 0\<rparr> None)) = [] \<and>
   is_leaf (root_node (fst (snd
     (update 1000 (QuadTree_init (subdivide (QuadNode scenario_root 0 [] None None)) 4 0 20)
       \<lparr>cx = 2000, cy = 96, hw = 90, hh = 160, theta_rad = 0\<rparr> None))))"
proof -
  let ?t = "QuadTree_init (subdivide (QuadNode scenario_root 0 [] None None)) 4 0 20"
  let ?vp = "\<lparr>cx = 2000, cy = 96, hw = 90, hh = 160, theta_rad = 0 :: real\<rparr>"
  have a: "\<not> intersects_aabb ?vp (rect (root_node ?t))"
    by (simp add: QuadTree_init_def scenario_root_def intersects_aabb_def axes_def Let_def
        proj_aabb_def proj_obb_def overlap_def dot_def)
  have b: "0 < (1000::nat)" by simp
  have c: "None = (None :: StopPredicate option) \<longrightarrow> config_ok ?t"
    by (simp add: config_ok_def QuadTree_init_def scenario_root_def)
  have d: "children (root_node ?t) \<noteq> None"
    by (simp add: QuadTree_init_def subdivide_def)
  show ?thesis
    using disjoint_viewport_prunes_root[OF a b c] a d by (simp add: is_leaf_def)
qed

section \<open>Structure of reachable trees\<close>

lemma subdivide_noop: "children m \<noteq> None \<Longrightarrow> subdivide m = m"
  by (auto simp: subdivide_def)

lemma subdivide_idem: "subdivide (subdivide m) = subdivide m"
  by (auto simp: subdivide_def split: option.splits)

text \<open>
  C9. In every tree reachable from a fresh root by \<^verbatim>\<open>subdivide\<close>, \<^verbatim>\<open>traverse\<close> and
  \<^verbatim>\<open>generate_stars\<close> on any of its nodes, every node with children has exactly 4 of them,
  the child at index \<open>i\<close> has the \<open>i\<close>-th quadrant of the parent's box, the parent's depth
  plus one, and the parent's path extended by \<open>i\<close>. \<^verbatim>\<open>subdivide\<close> changes nothing on a node
  that has children, and is idempotent.
\<close>

theorem tree_structure_invariant:
  assumes "reachable R t"
  shows "(\<forall>n\<in>set (nodes t). \<forall>cs. children n = Some cs \<longrightarrow>
            length cs = 4 \<and>
            (\<forall>i<4. rect (cs ! i) = quadrants (rect n) ! i \<and>
                    depth (cs ! i) = depth n + 1 \<and>
                    path (cs ! i) = path n @ [int i])) \<and>
         (children m \<noteq> None \<longrightarrow> subdivide m = m) \<and>
         subdivide (subdivide m) = subdivide m"
proof -
  have "length cs = 4 \<and>
        (\<forall>i<4. rect (cs ! i) = quadrants (rect n) ! i \<and>
                depth (cs ! i) = depth n + 1 \<and> path (cs ! i) = path n @ [int i])"
    if n: "n \<in> set (nodes t)" and cs: "children n = Some cs" for n cs
  proof -
    have "node_ok n" using good_nodes[OF reachable_good[OF assms] n] by simp
    then show ?thesis using cs by (simp add: node_ok_def)
  qed
  then show ?thesis
    using subdivide_noop[of m] subdivide_idem[of m] by blast
qed

theorem tree_structure_invariant_witness:
  "reachable scenario_root (subdivide (QuadNode scenario_root 0 [] None None)) \<and>
   (\<exists>cs. children (subdivide (QuadNode scenario_root 0 [] None None)) = Some cs \<and>
      length cs = 4 \<and> rect (cs ! 3) = quadrants scenario_root ! 3 \<and> depth (cs ! 3) = 1 \<and>
      path (cs ! 3) = [3])"
proof -
  let ?t = "subdivide (QuadNode scenario_root 0 [] None None)"
  have r: "reachable scenario_root ?t"
    using reachable.by_subdivide[OF reachable.fresh, of scenario_root "[]"] by simp
  have n: "?t \<in> set (nodes ?t)" by (rule self_in_nodes)
  have c: "children ?t = Some (new_children (QuadNode scenario_root 0 [] None None))"
    by (simp add: subdivide_def)
  show ?thesis
    using tree_structure_invariant[OF r, of ?t] n c r by (auto simp: all_less4)
qed

section \<open>Determinism of content\<close>

text \<open>
  C1. The world seed is the constant \<open>GLOBAL_SEED\<close>. For two nodes with the same depth and
  path, taken from any two trees reachable from the same root box (so also a node that was
  pruned and created again by a later query, with or without a filled cache),
  \<^verbatim>\<open>generate_stars\<close> returns the same sequence: same identifiers, positions and brightness,
  in the same order.
\<close>

theorem content_determined_by_address:
  assumes "reachable R t1" and "reachable R t2"
    and "n1 \<in> set (nodes t1)" and "n2 \<in> set (nodes t2)"
    and "depth n1 = depth n2" and "path n1 = path n2"
  shows "snd (generate_stars n1) = snd (generate_stars n2)"
proof -
  have a1: "addr_ok R n1" using good_nodes[OF reachable_good[OF assms(1)] assms(3)] by simp
  have a2: "addr_ok R n2" using good_nodes[OF reachable_good[OF assms(2)] assms(4)] by simp
  have "rect n1 = rect n2" using a1 a2 assms(6) by (simp add: addr_ok_def)
  then have "same_addr n1 n2" using assms(5,6) by (simp add: same_addr_def)
  then have sl: "stars_local n1 = stars_local n2" by (rule stars_local_cong)
  have "snd (generate_stars n) = stars_local n" if "addr_ok R n" for n
    using that by (auto simp: generate_stars_def addr_ok_def split: option.splits)
  then show ?thesis using a1 a2 sl by simp
qed

theorem content_determined_by_address_witness:
  "set_stars (Some (stars_local (QuadNode (quadrants scenario_root ! 0) 1 [0] None None)))
       (QuadNode (quadrants scenario_root ! 0) 1 [0] None None)
     \<in> set (nodes (apply_at (\<lambda>n. fst (generate_stars n)) [0]
                (subdivide (QuadNode scenario_root 0 [] None None)))) \<and>
   QuadNode (quadrants scenario_root ! 0) 1 [0] None None
     \<in> set (nodes (apply_at subdivide []
          (apply_at (\<lambda>n. fst (snd (traverse 1
                \<lparr>cx = 2000, cy = 96, hw = 90, hh = 160, theta_rad = 0\<rparr> (\<lambda>n vp. False) None n))) []
             (apply_at (\<lambda>n. fst (generate_stars n)) [0]
                (subdivide (QuadNode scenario_root 0 [] None None)))))) \<and>
   snd (generate_stars
         (set_stars (Some (stars_local (QuadNode (quadrants scenario_root ! 0) 1 [0] None None)))
            (QuadNode (quadrants scenario_root ! 0) 1 [0] None None))) =
   snd (generate_stars (QuadNode (quadrants scenario_root ! 0) 1 [0] None None))"
proof -
  let ?root = "QuadNode scenario_root 0 [] None None"
  let ?c0 = "QuadNode (quadrants scenario_root ! 0) 1 [0] None None"
  let ?n1 = "set_stars (Some (stars_local ?c0)) ?c0"
  let ?vp = "\<lparr>cx = 2000, cy = 96, hw = 90, hh = 160, theta_rad = 0 :: real\<rparr>"
  let ?t1 = "apply_at (\<lambda>n. fst (generate_stars n)) [0] (subdivide ?root)"
  let ?t2 = "apply_at subdivide []
               (apply_at (\<lambda>n. fst (snd (traverse 1 ?vp (\<lambda>n vp. False) None n))) [] ?t1)"
  have r1: "reachable scenario_root ?t1"
    by (intro reachable.by_generate_stars reachable.by_subdivide[where pos = "[]", simplified]
        reachable.fresh)
  have r2: "reachable scenario_root ?t2"
    by (intro reachable.by_subdivide reachable.by_traverse r1)
  have sub: "subdivide ?root = set_children (Some (new_children ?root)) ?root"
    by (simp add: subdivide_def)
  have c0: "new_children ?root ! 0 = ?c0"
    by (simp add: new_children_nth)
  have t1: "?t1 = set_children (Some ((new_children ?root)[0 := ?n1])) ?root"
    unfolding sub by (simp add: new_children_length c0 generate_stars_def set_children_def)
  have "?n1 \<in> set ((new_children ?root)[0 := ?n1])"
    by (rule set_update_memI) (simp add: new_children_length)
  then have m1: "?n1 \<in> set (nodes ?t1)"
    unfolding t1
    using child_nodes_subset[of "set_children (Some ((new_children ?root)[0 := ?n1])) ?root"
        "(new_children ?root)[0 := ?n1]" ?n1] self_in_nodes[of ?n1]
    by auto
  have far: "\<not> intersects_aabb ?vp scenario_root"
    by (simp add: scenario_root_def intersects_aabb_def axes_def Let_def
        proj_aabb_def proj_obb_def overlap_def dot_def)
  have t2: "?t2 = set_children (Some (new_children ?root)) ?root"
    unfolding t1 using far by (simp add: subdivide_def set_children_def new_children_def)
  have "?c0 \<in> set (new_children ?root)"
    using nth_mem[of 0 "new_children ?root"] by (simp add: new_children_length c0)
  then have m2: "?c0 \<in> set (nodes ?t2)"
    unfolding t2
    using child_nodes_subset[of "set_children (Some (new_children ?root)) ?root"
        "new_children ?root" ?c0] self_in_nodes[of ?c0]
    by auto
  have d: "depth ?n1 = depth ?c0" "path ?n1 = path ?c0" by simp_all
  show ?thesis
    using content_determined_by_address[OF r1 r2 m1 m2 d] m1 m2 by simp
qed

end
